theory Spec2Isabelle
  imports Main "HOL-Library.Word"
begin

section \<open>The video analyzer of \<^verbatim>\<open>webrtc/video/full_stack.cc\<close>\<close>

text \<open>
  The class \<^verbatim>\<open>VideoAnalyzer\<close> sits between a frame source, a sender, a network pipe, a
  receiver and a renderer. Its fields become one record, every member function becomes a
  function from the record to the updated record, every \<^verbatim>\<open>assert\<close> and every read of
  the front of an empty deque becomes an error value, and the comparison threads become
  program counters that a scheduler advances one critical section at a time.
\<close>

subsection \<open>Machine integers, frames and comparisons\<close>

type_synonym uint32 = "32 word"
type_synonym int64 = "64 word"
type_synonym packet = "8 word list"

text \<open>
  Modelled from the spec: the class \<^verbatim>\<open>VideoFrame\<close> is declared in a header that is not
  part of the sources at hand. The spec describes a frame as an opaque image with a capture
  time in NTP milliseconds and a 90 kHz RTP timestamp, and a zero frame that stands for
  "unset". The image is a list of sample values; the zero frame has none.
\<close>

record VideoFrame =
  video_frame_buffer :: "nat list option"
  timestamp :: uint32
  ntp_time_ms :: int64

definition ZeroFrame :: VideoFrame where
  "ZeroFrame = \<lparr>video_frame_buffer = None, timestamp = 0, ntp_time_ms = 0\<rparr>"

definition IsZeroSize :: "VideoFrame \<Rightarrow> bool" where
  "IsZeroSize f = (video_frame_buffer f = None)"

definition Reset :: "VideoFrame \<Rightarrow> VideoFrame" where
  "Reset f = ZeroFrame"

text \<open>\<^verbatim>\<open>set_timestamp\<close> takes a \<^verbatim>\<open>uint32_t\<close>: the 64-bit product is truncated.\<close>

definition set_timestamp :: "int64 \<Rightarrow> VideoFrame \<Rightarrow> VideoFrame" where
  "set_timestamp t f = f\<lparr>timestamp := ucast t\<rparr>"

record FrameComparison =
  reference :: VideoFrame
  render :: VideoFrame
  dropped :: bool
  send_time_ms :: int64
  recv_time_ms :: int64
  render_time_ms :: int64

text \<open>
  Modelled from the spec: \<^verbatim>\<open>test::Statistics\<close> is declared outside the sources at hand.
  The spec describes a collection that accepts samples and only grows; it is the list of
  the samples in the order they were added, and its count is the length of the list.
\<close>

type_synonym 'a Statistics = "'a list"

definition AddSample :: "'a \<Rightarrow> 'a Statistics \<Rightarrow> 'a Statistics" where
  "AddSample x st = st @ [x]"

subsection \<open>Errors and threads\<close>

datatype error =
  AssertFailed  \<comment> \<open>an \<^verbatim>\<open>assert\<close> or a \<^verbatim>\<open>DCHECK\<close> whose condition is false\<close>
| FrontOfEmptyDeque  \<comment> \<open>\<^verbatim>\<open>frames_.front()\<close> on an empty deque\<close>

text \<open>
  A comparison thread calls \<^verbatim>\<open>CompareFrames\<close> again and again until it returns false.
  Between two acquisitions of \<^verbatim>\<open>comparison_lock_\<close> the thread only touches its own
  locals, so its position is one of the following.
\<close>

datatype thread_pc =
  AtStart  \<comment> \<open>about to enter \<^verbatim>\<open>CompareFrames\<close>\<close>
| AtPopComparison  \<comment> \<open>the first \<^verbatim>\<open>AllFramesRecorded\<close> was false\<close>
| AtEventWait  \<comment> \<open>\<^verbatim>\<open>PopComparison\<close> returned false\<close>
| AtPerform FrameComparison  \<comment> \<open>holds a popped comparison\<close>
| AtFrameProcessed  \<comment> \<open>the samples are added\<close>
| AtPrintResults  \<comment> \<open>\<^verbatim>\<open>FrameProcessed\<close> returned true\<close>
| Stopped  \<comment> \<open>\<^verbatim>\<open>CompareFrames\<close> returned false\<close>

subsection \<open>The analyzer\<close>

text \<open>
  The fields of the class, without the trailing underscore. The similarity values are
  doubles, kept abstract as \<open>'d\<close>; the timing samples are the 64-bit differences handed to
  \<^verbatim>\<open>AddSample\<close>. \<open>results_printed\<close> counts the calls of \<^verbatim>\<open>PrintResults\<close> and stands for
  what the analyzer has written to the standard output. The statistics poller and the four
  statistics only it feeds are left out.
\<close>

record 'd VideoAnalyzer =
  sender_time :: "int64 Statistics"
  receiver_time :: "int64 Statistics"
  psnr :: "'d Statistics"
  ssim :: "'d Statistics"
  end_to_end :: "int64 Statistics"
  rendered_delta :: "int64 Statistics"
  encoded_frame_size :: "nat Statistics"
  frames_to_process :: int
  frames_recorded :: int
  frames_processed :: int
  dropped_frames :: int
  last_render_time :: int64
  rtp_timestamp_delta :: uint32
  frames :: "VideoFrame list"
  last_rendered_frame :: VideoFrame
  send_times :: "uint32 \<rightharpoonup> int64"
  recv_times :: "uint32 \<rightharpoonup> int64"
  first_send_frame :: VideoFrame
  comparison_thread_pool :: "thread_pc list"
  comparison_available_event :: bool
  comparisons :: "FrameComparison list"
  done_event :: bool
  results_printed :: nat

subsection \<open>The constructor\<close>

text \<open>
  The number of comparison threads, from the number of cores
  (\<^verbatim>\<open>kMinCoresLeft = 4\<close>, \<^verbatim>\<open>kMaxComparisonThreads = 8\<close>, all \<^verbatim>\<open>uint32_t\<close>).
\<close>

definition kMinCoresLeft :: uint32 where
  "kMinCoresLeft = 4"

definition kMaxComparisonThreads :: uint32 where
  "kMaxComparisonThreads = 8"

definition num_comparison_threads :: "uint32 \<Rightarrow> uint32" where
  "num_comparison_threads num_cores =
     (if num_cores \<le> kMinCoresLeft then 1
      else min (num_cores - kMinCoresLeft) kMaxComparisonThreads)"

definition VideoAnalyzer_init :: "int \<Rightarrow> uint32 \<Rightarrow> 'd VideoAnalyzer" where
  "VideoAnalyzer_init duration_frames num_cores =
     \<lparr>sender_time = [], receiver_time = [], psnr = [], ssim = [], end_to_end = [],
      rendered_delta = [], encoded_frame_size = [],
      frames_to_process = duration_frames,
      frames_recorded = 0, frames_processed = 0, dropped_frames = 0,
      last_render_time = 0, rtp_timestamp_delta = 0,
      frames = [], last_rendered_frame = ZeroFrame,
      send_times = Map.empty, recv_times = Map.empty,
      first_send_frame = ZeroFrame,
      comparison_thread_pool =
        replicate (unat (num_comparison_threads num_cores)) AtStart,
      comparison_available_event = False,
      comparisons = [],
      done_event = False,
      results_printed = 0\<rparr>"

text \<open>The constructor checks \<^verbatim>\<open>DCHECK_GE(num_cores, 1u)\<close> before it sizes the pool.\<close>

definition VideoAnalyzer_new :: "int \<Rightarrow> uint32 \<Rightarrow> error + 'd VideoAnalyzer" where
  "VideoAnalyzer_new duration_frames num_cores =
     (if 1 \<le> num_cores then Inr (VideoAnalyzer_init duration_frames num_cores)
      else Inl AssertFailed)"

subsection \<open>The collaborators\<close>

text \<open>
  The transport, the receiver, the capture input, the RTP header parser and the two
  similarity routines are objects and functions the analyzer only calls. Their state is
  one value of an arbitrary type \<open>'w\<close>, and each call is a function on it. \<open>Parse\<close>
  gives the \<^verbatim>\<open>timestamp\<close> field of the header the parser fills in. The enumerations
  \<^verbatim>\<open>MediaType\<close> and \<^verbatim>\<open>DeliveryStatus\<close> are declared outside the sources at hand and are
  kept as their integer values. The clock is read by the caller and passed as \<open>now\<close>.
\<close>

type_synonym MediaType = nat
type_synonym DeliveryStatus = nat

record ('d, 'w) collaborators =
  Parse :: "packet \<Rightarrow> uint32"
  I420PSNR :: "VideoFrame \<Rightarrow> VideoFrame \<Rightarrow> 'd"
  I420SSIM :: "VideoFrame \<Rightarrow> VideoFrame \<Rightarrow> 'd"
  transport_SendRtp :: "packet \<Rightarrow> 'w \<Rightarrow> bool \<times> 'w"
  transport_SendRtcp :: "packet \<Rightarrow> 'w \<Rightarrow> bool \<times> 'w"
  receiver_DeliverPacket :: "MediaType \<Rightarrow> packet \<Rightarrow> 'w \<Rightarrow> DeliveryStatus \<times> 'w"
  input_IncomingCapturedFrame :: "VideoFrame \<Rightarrow> 'w \<Rightarrow> 'w"

subsection \<open>The five callbacks\<close>

definition DeliverPacket ::
  "('d, 'w) collaborators \<Rightarrow> MediaType \<Rightarrow> packet \<Rightarrow> int64 \<Rightarrow> 'd VideoAnalyzer \<times> 'w
     \<Rightarrow> DeliveryStatus \<times> 'd VideoAnalyzer \<times> 'w" where
  "DeliverPacket X media_type pkt now st =
     (case st of (s, w) \<Rightarrow>
        let header_timestamp = Parse X pkt;
            s1 = s\<lparr>recv_times :=
                     (recv_times s)(header_timestamp - rtp_timestamp_delta s \<mapsto> now)\<rparr>;
            (r, w1) = receiver_DeliverPacket X media_type pkt w
        in (r, s1, w1))"

definition IncomingCapturedFrame ::
  "('d, 'w) collaborators \<Rightarrow> VideoFrame \<Rightarrow> 'd VideoAnalyzer \<times> 'w
     \<Rightarrow> 'd VideoAnalyzer \<times> 'w" where
  "IncomingCapturedFrame X video_frame st =
     (case st of (s, w) \<Rightarrow>
        let copy = set_timestamp (ntp_time_ms video_frame * 90) video_frame;
            s1 = (if IsZeroSize (first_send_frame s) \<and> rtp_timestamp_delta s = 0
                  then s\<lparr>first_send_frame := copy\<rparr> else s);
            s2 = s1\<lparr>frames := frames s1 @ [copy]\<rparr>
        in (s2, input_IncomingCapturedFrame X video_frame w))"

definition SendRtp ::
  "('d, 'w) collaborators \<Rightarrow> packet \<Rightarrow> int64 \<Rightarrow> 'd VideoAnalyzer \<times> 'w
     \<Rightarrow> bool \<times> 'd VideoAnalyzer \<times> 'w" where
  "SendRtp X pkt now st =
     (case st of (s, w) \<Rightarrow>
        let header_timestamp = Parse X pkt;
            s1 = (if rtp_timestamp_delta s = 0
                  then s\<lparr>rtp_timestamp_delta :=
                            header_timestamp - timestamp (first_send_frame s),
                          first_send_frame := Reset (first_send_frame s)\<rparr>
                  else s);
            s2 = s1\<lparr>send_times :=
                      (send_times s1)(header_timestamp - rtp_timestamp_delta s1 \<mapsto> now)\<rparr>;
            (r, w1) = transport_SendRtp X pkt w
        in (r, s2, w1))"

definition SendRtcp ::
  "('d, 'w) collaborators \<Rightarrow> packet \<Rightarrow> 'd VideoAnalyzer \<times> 'w
     \<Rightarrow> bool \<times> 'd VideoAnalyzer \<times> 'w" where
  "SendRtcp X pkt st =
     (case st of (s, w) \<Rightarrow>
        let (r, w1) = transport_SendRtcp X pkt w in (r, s, w1))"

definition EncodedFrameCallback :: "nat \<Rightarrow> 'd VideoAnalyzer \<Rightarrow> 'd VideoAnalyzer" where
  "EncodedFrameCallback frame_length s =
     (if frames_recorded s < frames_to_process s
      then s\<lparr>encoded_frame_size := AddSample frame_length (encoded_frame_size s)\<rparr>
      else s)"

text \<open>
  \<^verbatim>\<open>send_times_[k]\<close> on a \<^verbatim>\<open>std::map\<close> inserts and returns 0 when the key is absent;
  the entry is erased right after, so only the value read remains.
\<close>

definition AddFrameComparison ::
  "VideoFrame \<Rightarrow> VideoFrame \<Rightarrow> bool \<Rightarrow> int64 \<Rightarrow> 'd VideoAnalyzer \<Rightarrow> 'd VideoAnalyzer" where
  "AddFrameComparison reference_frame render_frame is_dropped render_time s =
     (let k = timestamp reference_frame;
          send_time = (case send_times s k of None \<Rightarrow> 0 | Some t \<Rightarrow> t);
          recv_time = (case recv_times s k of None \<Rightarrow> 0 | Some t \<Rightarrow> t)
      in s\<lparr>send_times := (send_times s)(k := None),
           recv_times := (recv_times s)(k := None),
           comparisons := comparisons s @
             [\<lparr>reference = reference_frame, render = render_frame, dropped = is_dropped,
               send_time_ms = send_time, recv_time_ms = recv_time,
               render_time_ms = render_time\<rparr>],
           comparison_available_event := True\<rparr>)"

text \<open>The \<^verbatim>\<open>while\<close> loop of \<^verbatim>\<open>RenderFrame\<close>; \<open><\<close> on words is unsigned.\<close>

function RenderFrame_loop ::
  "uint32 \<Rightarrow> int64 \<Rightarrow> 'd VideoAnalyzer \<Rightarrow> error + 'd VideoAnalyzer" where
  "RenderFrame_loop send_timestamp render_time s =
     (case frames s of
        [] \<Rightarrow> Inl FrontOfEmptyDeque
      | f # fs \<Rightarrow>
          if timestamp f < send_timestamp
          then RenderFrame_loop send_timestamp render_time
                 ((AddFrameComparison f (last_rendered_frame s) True render_time s)
                    \<lparr>frames := fs\<rparr>)
          else Inr s)"
  by pat_completeness auto
termination
  by (relation "measure (\<lambda>(t, r, s). length (frames s))") auto

declare RenderFrame_loop.simps [simp del]

definition RenderFrame ::
  "VideoFrame \<Rightarrow> int \<Rightarrow> int64 \<Rightarrow> 'd VideoAnalyzer \<Rightarrow> error + 'd VideoAnalyzer" where
  "RenderFrame video_frame time_to_render_ms now s =
     (let send_timestamp = timestamp video_frame - rtp_timestamp_delta s in
      case RenderFrame_loop send_timestamp now s of
        Inl e \<Rightarrow> Inl e
      | Inr s1 \<Rightarrow>
          (case frames s1 of
             [] \<Rightarrow> Inl FrontOfEmptyDeque
           | reference_frame # fs \<Rightarrow>
               if IsZeroSize reference_frame then Inl AssertFailed
               else if timestamp reference_frame \<noteq> send_timestamp then Inl AssertFailed
               else Inr ((AddFrameComparison reference_frame video_frame False now
                            (s1\<lparr>frames := fs\<rparr>))
                         \<lparr>last_rendered_frame := video_frame\<rparr>)))"

subsection \<open>The comparison threads\<close>

definition AllFramesRecorded :: "'d VideoAnalyzer \<Rightarrow> error + bool" where
  "AllFramesRecorded s =
     (if frames_recorded s \<le> frames_to_process s
      then Inr (frames_recorded s = frames_to_process s)
      else Inl AssertFailed)"

definition FrameRecorded :: "'d VideoAnalyzer \<Rightarrow> 'd VideoAnalyzer" where
  "FrameRecorded s = s\<lparr>frames_recorded := frames_recorded s + 1\<rparr>"

definition PopComparison ::
  "'d VideoAnalyzer \<Rightarrow> error + (FrameComparison option \<times> 'd VideoAnalyzer)" where
  "PopComparison s =
     (case comparisons s of
        [] \<Rightarrow> Inr (None, s)
      | c # cs \<Rightarrow>
          (case AllFramesRecorded s of
             Inl e \<Rightarrow> Inl e
           | Inr True \<Rightarrow> Inr (None, s)
           | Inr False \<Rightarrow> Inr (Some c, FrameRecorded (s\<lparr>comparisons := cs\<rparr>))))"

definition FrameProcessed :: "'d VideoAnalyzer \<Rightarrow> error + (bool \<times> 'd VideoAnalyzer)" where
  "FrameProcessed s =
     (let s1 = s\<lparr>frames_processed := frames_processed s + 1\<rparr> in
      if frames_processed s1 \<le> frames_to_process s1
      then Inr (frames_processed s1 = frames_to_process s1, s1)
      else Inl AssertFailed)"

text \<open>
  \<^verbatim>\<open>PrintResults\<close> writes one line per statistic and compares two means with the
  thresholds of the test; only the fact that it ran is kept.
\<close>

definition PrintResults :: "'d VideoAnalyzer \<Rightarrow> 'd VideoAnalyzer" where
  "PrintResults s = s\<lparr>results_printed := results_printed s + 1\<rparr>"

definition PerformFrameComparison ::
  "('d, 'w) collaborators \<Rightarrow> FrameComparison \<Rightarrow> 'd VideoAnalyzer \<Rightarrow> 'd VideoAnalyzer" where
  "PerformFrameComparison X comparison s =
     (let p = I420PSNR X (reference comparison) (render comparison);
          q = I420SSIM X (reference comparison) (render comparison);
          s1 = s\<lparr>psnr := AddSample p (psnr s), ssim := AddSample q (ssim s)\<rparr>
      in if dropped comparison then s1\<lparr>dropped_frames := dropped_frames s1 + 1\<rparr>
         else
           let s2 = (if last_render_time s1 \<noteq> 0
                     then s1\<lparr>rendered_delta :=
                               AddSample (render_time_ms comparison - last_render_time s1)
                                 (rendered_delta s1)\<rparr>
                     else s1);
               s3 = s2\<lparr>last_render_time := render_time_ms comparison\<rparr>;
               input_time_ms = ntp_time_ms (reference comparison)
           in s3\<lparr>sender_time :=
                     AddSample (send_time_ms comparison - input_time_ms) (sender_time s3),
                   receiver_time :=
                     AddSample (render_time_ms comparison - recv_time_ms comparison)
                       (receiver_time s3),
                   end_to_end :=
                     AddSample (render_time_ms comparison - input_time_ms) (end_to_end s3)\<rparr>)"

definition set_pc :: "nat \<Rightarrow> thread_pc \<Rightarrow> 'd VideoAnalyzer \<Rightarrow> 'd VideoAnalyzer" where
  "set_pc i pc s = s\<lparr>comparison_thread_pool := (comparison_thread_pool s)[i := pc]\<rparr>"

text \<open>
  One step of thread \<open>i\<close> through \<^verbatim>\<open>CompareFrames\<close>: everything from its position up to
  the end of the next critical section. The wait on \<^verbatim>\<open>comparison_available_event_\<close>
  returns after a second at the latest, signalled or not, and resets the event. A thread
  that does not exist, or has stopped, does nothing.
\<close>

definition CompareFrames_step ::
  "('d, 'w) collaborators \<Rightarrow> nat \<Rightarrow> 'd VideoAnalyzer \<Rightarrow> error + 'd VideoAnalyzer" where
  "CompareFrames_step X i s =
     (if length (comparison_thread_pool s) \<le> i then Inr s
      else case comparison_thread_pool s ! i of
        AtStart \<Rightarrow>
          (case AllFramesRecorded s of
             Inl e \<Rightarrow> Inl e
           | Inr True \<Rightarrow> Inr (set_pc i Stopped s)
           | Inr False \<Rightarrow> Inr (set_pc i AtPopComparison s))
      | AtPopComparison \<Rightarrow>
          (case PopComparison s of
             Inl e \<Rightarrow> Inl e
           | Inr (None, s1) \<Rightarrow> Inr (set_pc i AtEventWait s1)
           | Inr (Some c, s1) \<Rightarrow> Inr (set_pc i (AtPerform c) s1))
      | AtEventWait \<Rightarrow>
          (let s1 = s\<lparr>comparison_available_event := False\<rparr> in
           case AllFramesRecorded s1 of
             Inl e \<Rightarrow> Inl e
           | Inr True \<Rightarrow> Inr (set_pc i Stopped (s1\<lparr>comparison_available_event := True\<rparr>))
           | Inr False \<Rightarrow> Inr (set_pc i AtStart s1))
      | AtPerform c \<Rightarrow> Inr (set_pc i AtFrameProcessed (PerformFrameComparison X c s))
      | AtFrameProcessed \<Rightarrow>
          (case FrameProcessed s of
             Inl e \<Rightarrow> Inl e
           | Inr (True, s1) \<Rightarrow> Inr (set_pc i AtPrintResults s1)
           | Inr (False, s1) \<Rightarrow> Inr (set_pc i AtStart s1))
      | AtPrintResults \<Rightarrow>
          Inr (set_pc i Stopped
                 ((PrintResults s)\<lparr>done_event := True, comparison_available_event := True\<rparr>))
      | Stopped \<Rightarrow> Inr s)"

subsection \<open>Runs\<close>

text \<open>
  What the threads around the analyzer do to it, one action at a time: the five callbacks,
  and a step of a comparison thread. A run stops at the first error, as the process does.
\<close>

datatype action =
  Captured VideoFrame
| SentRtp packet int64
| SentRtcp packet
| Delivered MediaType packet int64
| Encoded nat
| Rendered VideoFrame int int64
| Thread nat

fun exec ::
  "('d, 'w) collaborators \<Rightarrow> action \<Rightarrow> 'd VideoAnalyzer \<times> 'w
     \<Rightarrow> error + 'd VideoAnalyzer \<times> 'w" where
  "exec X (Captured f) st = Inr (IncomingCapturedFrame X f st)"
| "exec X (SentRtp pkt now) st = Inr (snd (SendRtp X pkt now st))"
| "exec X (SentRtcp pkt) st = Inr (snd (SendRtcp X pkt st))"
| "exec X (Delivered m pkt now) st = Inr (snd (DeliverPacket X m pkt now st))"
| "exec X (Encoded n) st = Inr (EncodedFrameCallback n (fst st), snd st)"
| "exec X (Rendered f t now) st =
     (case RenderFrame f t now (fst st) of Inl e \<Rightarrow> Inl e | Inr s1 \<Rightarrow> Inr (s1, snd st))"
| "exec X (Thread i) st =
     (case CompareFrames_step X i (fst st) of Inl e \<Rightarrow> Inl e | Inr s1 \<Rightarrow> Inr (s1, snd st))"

fun run ::
  "('d, 'w) collaborators \<Rightarrow> action list \<Rightarrow> 'd VideoAnalyzer \<times> 'w
     \<Rightarrow> error + 'd VideoAnalyzer \<times> 'w" where
  "run X [] st = Inr st"
| "run X (a # as) st = (case exec X a st of Inl e \<Rightarrow> Inl e | Inr st1 \<Rightarrow> run X as st1)"

text \<open>The analyzer states a run goes through, the first one included.\<close>

fun trace ::
  "('d, 'w) collaborators \<Rightarrow> action list \<Rightarrow> 'd VideoAnalyzer \<times> 'w
     \<Rightarrow> 'd VideoAnalyzer list" where
  "trace X [] st = [fst st]"
| "trace X (a # as) st =
     fst st # (case exec X a st of Inl e \<Rightarrow> [] | Inr st1 \<Rightarrow> trace X as st1)"

subsection \<open>Waiting for the end of the test\<close>

text \<open>
  \<^verbatim>\<open>Wait\<close> loops on \<^verbatim>\<open>done_->Wait(kDefaultTimeoutMs)\<close>. What the loop sees is a list of
  observations, one for each return of that call: the event type and the value of
  \<^verbatim>\<open>frames_processed_\<close> at that moment. The loop ends when the event was signalled
  (\<^verbatim>\<open>Wait\<close> then returns, after \<open>iteration\<close> keep-alive lines), when \<^verbatim>\<open>ASSERT_GT\<close>
  fails (\<^verbatim>\<open>Wait\<close> returns at once with the failure "Analyzer stalled while waiting for test
  to finish."), or not at all within the observations given.
\<close>

datatype EventTypeWrapper = kEventSignaled | kEventError | kEventTimeout

datatype wait_result =
  WaitReturned nat
| WaitStalled
| WaitBlocked

fun Wait_loop :: "int \<Rightarrow> nat \<Rightarrow> (EventTypeWrapper \<times> int) list \<Rightarrow> wait_result" where
  "Wait_loop last_frames_processed iteration [] = WaitBlocked"
| "Wait_loop last_frames_processed iteration ((eventType, processed) # obs) =
     (if eventType = kEventSignaled then WaitReturned iteration
      else if last_frames_processed = - 1 then Wait_loop processed (iteration + 1) obs
      else if processed > last_frames_processed then Wait_loop processed (iteration + 1) obs
      else WaitStalled)"

definition Wait :: "(EventTypeWrapper \<times> int) list \<Rightarrow> wait_result" where
  "Wait obs = Wait_loop (- 1) 0 obs"

text \<open>What the main thread observes of an analyzer state when its timed wait returns.\<close>

definition observe :: "'d VideoAnalyzer \<Rightarrow> EventTypeWrapper \<times> int" where
  "observe s = (if done_event s then kEventSignaled else kEventTimeout, frames_processed s)"

subsection \<open>Collaborators to run the definitions with\<close>

text \<open>
  A transport, a receiver and an input that record what they are handed and accept it, a
  parser that reads the four timestamp bytes of the fixed RTP header (bytes 4 to 7, most
  significant first; 0 for a shorter packet), and similarity routines that tell equal
  images from different ones.
\<close>

record wire =
  rtp_out :: "packet list"
  rtcp_out :: "packet list"
  delivered :: "packet list"
  captured :: "VideoFrame list"

definition wire0 :: wire where
  "wire0 = \<lparr>rtp_out = [], rtcp_out = [], delivered = [], captured = []\<rparr>"

definition header_timestamp_of :: "packet \<Rightarrow> uint32" where
  "header_timestamp_of pkt =
     (case drop 4 pkt of
        b0 # b1 # b2 # b3 # _ \<Rightarrow>
          ucast b0 * 16777216 + ucast b1 * 65536 + ucast b2 * 256 + ucast b3
      | _ \<Rightarrow> 0)"

definition loopback :: "(int, wire) collaborators" where
  "loopback =
     \<lparr>Parse = header_timestamp_of,
      I420PSNR = (\<lambda>f g. if video_frame_buffer f = video_frame_buffer g then 48 else 0),
      I420SSIM = (\<lambda>f g. if video_frame_buffer f = video_frame_buffer g then 1 else 0),
      transport_SendRtp = (\<lambda>pkt w. (True, w\<lparr>rtp_out := rtp_out w @ [pkt]\<rparr>)),
      transport_SendRtcp = (\<lambda>pkt w. (True, w\<lparr>rtcp_out := rtcp_out w @ [pkt]\<rparr>)),
      receiver_DeliverPacket = (\<lambda>m pkt w. (0, w\<lparr>delivered := delivered w @ [pkt]\<rparr>)),
      input_IncomingCapturedFrame = (\<lambda>f w. w\<lparr>captured := captured w @ [f]\<rparr>)\<rparr>"

subsection \<open>Inputs to run the definitions on\<close>

text \<open>
  The \<open>k\<close>-th frame of a generator, captured at millisecond \<open>k\<close>; the same picture as the
  receiver renders it, carrying the RTP timestamp of a sender that started its RTP clock
  at \<open>start\<close>; and an RTP packet of twelve header bytes with a given timestamp.
\<close>

definition raw_frame :: "nat \<Rightarrow> VideoFrame" where
  "raw_frame k = \<lparr>video_frame_buffer = Some [k], timestamp = 0, ntp_time_ms = of_nat k\<rparr>"

definition decoded_frame :: "nat \<Rightarrow> uint32 \<Rightarrow> VideoFrame" where
  "decoded_frame k start =
     \<lparr>video_frame_buffer = Some [k], timestamp = of_nat k * 90 + start, ntp_time_ms = 0\<rparr>"

definition rtp_packet :: "uint32 \<Rightarrow> packet" where
  "rtp_packet t =
     [128, 124, 0, 1,
      ucast (drop_bit 24 t), ucast (drop_bit 16 t), ucast (drop_bit 8 t), ucast t,
      0, 0, 0, 1]"

text \<open>The analyzer after three captured frames, with nothing sent yet.\<close>

definition three_captured :: "int VideoAnalyzer" where
  "three_captured =
     fst (IncomingCapturedFrame loopback (raw_frame 3)
       (IncomingCapturedFrame loopback (raw_frame 2)
         (IncomingCapturedFrame loopback (raw_frame 1) (VideoAnalyzer_init 3 1, wire0))))"

text \<open>
  A run with a budget of two frames on one comparison thread: two frames are captured,
  only the second is rendered, and the thread takes the two comparisons through
  \<^verbatim>\<open>CompareFrames\<close> up to the report.
\<close>

definition two_frame_run :: "action list" where
  "two_frame_run =
     [Captured (raw_frame 1), Captured (raw_frame 2), Rendered (decoded_frame 2 0) 0 20,
      Thread 0, Thread 0, Thread 0, Thread 0,
      Thread 0, Thread 0, Thread 0, Thread 0, Thread 0]"

subsection \<open>Notions the properties are stated with\<close>

text \<open>
  A thread is in flight when it has popped a comparison and has not yet counted it as
  processed. \<open>count_pc P s\<close> is the number of threads of the pool whose position
  satisfies \<open>P\<close>.
\<close>

definition in_flight :: "thread_pc \<Rightarrow> bool" where
  "in_flight pc = (case pc of AtPerform c \<Rightarrow> True | AtFrameProcessed \<Rightarrow> True | _ \<Rightarrow> False)"

definition count_pc :: "(thread_pc \<Rightarrow> bool) \<Rightarrow> 'd VideoAnalyzer \<Rightarrow> int" where
  "count_pc P s = int (length (filter P (comparison_thread_pool s)))"

text \<open>
  What the comparison threads and the final report work on: the fields guarded by
  \<^verbatim>\<open>comparison_lock_\<close> other than the queue itself, the pool and the done event.
\<close>

definition comparison_side ::
  "'d VideoAnalyzer \<Rightarrow>
     (int \<times> int \<times> int \<times> int) \<times>
     ('d list \<times> 'd list \<times> int64 list \<times> int64 list \<times> int64 list \<times> int64 list \<times> int64) \<times>
     thread_pc list \<times> bool \<times> nat" where
  "comparison_side s =
     ((frames_to_process s, frames_recorded s, frames_processed s, dropped_frames s),
      (psnr s, ssim s, sender_time s, receiver_time s, end_to_end s, rendered_delta s,
       last_render_time s),
      comparison_thread_pool s, done_event s, results_printed s)"

text \<open>
  The invariant of the pool for a budget of \<open>N\<close> frames. The counters are ordered; the
  frames recorded and not yet processed are exactly those in the hands of a thread; every
  comparison that was performed left one PSNR and one SSIM sample and either one dropped
  frame or one sample in each timing statistic; and the results are printed, and the done
  event set, by the one thread that saw \<^verbatim>\<open>FrameProcessed\<close> return true.
\<close>

definition pool_inv :: "int \<Rightarrow> 'd VideoAnalyzer \<Rightarrow> bool" where
  "pool_inv N s =
     (frames_to_process s = N
      \<and> 0 \<le> frames_processed s
      \<and> frames_recorded s \<le> N
      \<and> frames_recorded s = frames_processed s + count_pc in_flight s
      \<and> int (length (psnr s)) = frames_processed s + count_pc (\<lambda>pc. pc = AtFrameProcessed) s
      \<and> length (ssim s) = length (psnr s)
      \<and> 0 \<le> dropped_frames s
      \<and> dropped_frames s + int (length (sender_time s)) = int (length (psnr s))
      \<and> length (receiver_time s) = length (sender_time s)
      \<and> length (end_to_end s) = length (sender_time s)
      \<and> count_pc (\<lambda>pc. pc = AtPrintResults) s + int (results_printed s)
          = (if frames_processed s = N \<and> 0 < N then 1 else 0)
      \<and> done_event s = (results_printed s = 1))"

text \<open>
  The state of an analyzer with a budget of no frames: nothing was ever popped, compared
  or reported, and every thread is at the start of \<^verbatim>\<open>CompareFrames\<close> or has stopped.
\<close>

definition idle :: "'d VideoAnalyzer \<Rightarrow> bool" where
  "idle s =
     (frames_to_process s = 0 \<and> frames_recorded s = 0 \<and> frames_processed s = 0
      \<and> dropped_frames s = 0 \<and> psnr s = [] \<and> ssim s = [] \<and> sender_time s = []
      \<and> receiver_time s = [] \<and> end_to_end s = [] \<and> rendered_delta s = []
      \<and> encoded_frame_size s = [] \<and> \<not> done_event s \<and> results_printed s = 0
      \<and> set (comparison_thread_pool s) \<subseteq> {AtStart, Stopped})"

text \<open>
  How many times a sequence of values of a counter arrives at \<open>n\<close> from another value.
\<close>

fun times_reached :: "int \<Rightarrow> int list \<Rightarrow> nat" where
  "times_reached n (a # b # xs) =
     (if a \<noteq> n \<and> b = n then 1 else 0) + times_reached n (b # xs)"
| "times_reached n xs = 0"

section \<open>Properties\<close>

subsection \<open>The size of the thread pool\<close>

lemma uint_num_comparison_threads:
  "uint (num_comparison_threads n) = max 1 (min 8 (uint n - 4))"
  unfolding num_comparison_threads_def kMinCoresLeft_def kMaxComparisonThreads_def
  by (auto simp: min_def max_def word_le_def uint_sub_if' split: if_splits)

text \<open>
  C5. On a machine with at least one core the constructor succeeds and creates
  \<open>max 1 (min 8 (cores - 4))\<close> comparison threads, the subtraction taken in the integers:
  one thread for up to four cores, eight threads from thirteen cores on.
\<close>

theorem comparison_thread_count:
  assumes "1 \<le> n"
  shows "\<exists>s. VideoAnalyzer_new N n = Inr s
           \<and> int (length (comparison_thread_pool s)) = max 1 (min 8 (uint n - 4))
           \<and> (n \<le> 4 \<longrightarrow> length (comparison_thread_pool s) = 1)
           \<and> (13 \<le> n \<longrightarrow> length (comparison_thread_pool s) = 8)"
proof -
  let ?s = "VideoAnalyzer_init N n"
  have len: "int (length (comparison_thread_pool ?s)) = max 1 (min 8 (uint n - 4))"
    using uint_num_comparison_threads [of n] by (simp add: VideoAnalyzer_init_def)
  have low: "n \<le> 4 \<Longrightarrow> length (comparison_thread_pool ?s) = 1"
    using len by (simp add: word_le_def)
  have high: "13 \<le> n \<Longrightarrow> length (comparison_thread_pool ?s) = 8"
    using len by (simp add: word_le_def)
  have "VideoAnalyzer_new N n = Inr ?s"
    using assms by (simp add: VideoAnalyzer_new_def)
  with len low high show ?thesis
    by blast
qed

theorem comparison_thread_count_witness:
  "(1 :: uint32) \<le> 16
   \<and> (\<exists>s :: int VideoAnalyzer. VideoAnalyzer_new 1800 16 = Inr s
         \<and> length (comparison_thread_pool s) = 8)"
  using comparison_thread_count [of 16 1800] by auto

subsection \<open>RTCP packets pass through\<close>

text \<open>
  C10. \<^verbatim>\<open>SendRtcp\<close> hands the packet as it is to the transport, returns what the
  transport returns, and leaves the analyzer as it was: the state after the call is the
  state before it, field by field.
\<close>

theorem SendRtcp_forwards_only:
  "SendRtcp X pkt (s, w) =
     (fst (transport_SendRtcp X pkt w), s, snd (transport_SendRtcp X pkt w))"
  by (simp add: SendRtcp_def split: prod.splits)

subsection \<open>The stall check of \<^verbatim>\<open>Wait\<close>\<close>

lemma Wait_loop_timeouts:
  assumes "\<forall>ob \<in> set obs. fst ob \<noteq> kEventSignaled \<and> 0 \<le> snd ob" and "0 \<le> l"
  shows "Wait_loop l it obs =
           (if successively (<) (l # map snd obs) then WaitBlocked else WaitStalled)"
  using assms
proof (induction obs arbitrary: l it)
  case Nil
  then show ?case by simp
next
  case (Cons ob obs)
  obtain e p where ob: "ob = (e, p)" by (cases ob)
  from Cons.prems ob have e: "e \<noteq> kEventSignaled" and p: "0 \<le> p" by auto
  from Cons.prems have rest: "\<forall>ob \<in> set obs. fst ob \<noteq> kEventSignaled \<and> 0 \<le> snd ob"
    by simp
  show ?case
  proof (cases "l < p")
    case True
    with Cons.IH [OF rest p] e Cons.prems(2) ob show ?thesis by simp
  next
    case False
    with e Cons.prems(2) ob show ?thesis by simp
  qed
qed

lemma Wait_timeouts:
  assumes "\<forall>ob \<in> set obs. fst ob \<noteq> kEventSignaled \<and> 0 \<le> snd ob"
  shows "Wait obs = (if successively (<) (map snd obs) then WaitBlocked else WaitStalled)"
proof (cases obs)
  case Nil
  then show ?thesis by (simp add: Wait_def)
next
  case (Cons ob rest)
  obtain e p where ob: "ob = (e, p)" by (cases ob)
  from assms Cons ob have e: "e \<noteq> kEventSignaled" and p: "0 \<le> p"
    and rest: "\<forall>ob \<in> set rest. fst ob \<noteq> kEventSignaled \<and> 0 \<le> snd ob" by auto
  show ?thesis
    using Wait_loop_timeouts [OF rest p, of 1] e Cons ob by (simp add: Wait_def)
qed

lemma not_successively_mid:
  "\<not> P a b \<Longrightarrow> \<not> successively P (pre @ a # b # rest)"
  by (simp add: successively_append_iff)

text \<open>When the event is signalled after ticks that all showed progress, \<^verbatim>\<open>Wait\<close> returns.\<close>

lemma Wait_loop_returns:
  assumes "\<forall>ob \<in> set obs. fst ob \<noteq> kEventSignaled \<and> 0 \<le> snd ob" and "0 \<le> l"
    and "successively (<) (l # map snd obs)"
  shows "Wait_loop l it (obs @ (kEventSignaled, p) # rest) = WaitReturned (it + length obs)"
  using assms
  by (induction obs arbitrary: l it) (auto split: if_splits)

text \<open>
  C9. Take any sequence of returns of the timed wait in which the event is never signalled
  (the counter read at each of them is at least 0, as it always is). \<^verbatim>\<open>Wait\<close> fails with
  the stall message exactly when some tick does not read a strictly greater
  \<^verbatim>\<open>frames_processed_\<close> than the tick before it, and keeps waiting otherwise. So two
  ticks in a row without progress fail the test by the second of them, whatever came
  before and whatever would come after.
\<close>

theorem Wait_stalls_without_progress:
  assumes "\<forall>ob \<in> set obs. fst ob \<noteq> kEventSignaled \<and> 0 \<le> snd ob"
  shows "Wait obs = (if successively (<) (map snd obs) then WaitBlocked else WaitStalled)
         \<and> (\<forall>pre a b rest. obs = pre @ a # b # rest \<and> snd b \<le> snd a
               \<longrightarrow> Wait obs = WaitStalled)"
proof -
  have main: "Wait obs = (if successively (<) (map snd obs) then WaitBlocked else WaitStalled)"
    by (rule Wait_timeouts [OF assms])
  have "Wait obs = WaitStalled" if "obs = pre @ a # b # rest" and "snd b \<le> snd a"
    for pre a b rest
  proof -
    have "\<not> successively (<) (map snd pre @ snd a # snd b # map snd rest)"
      using that(2) by (intro not_successively_mid) simp
    with that(1) main show ?thesis by simp
  qed
  with main show ?thesis by blast
qed

theorem Wait_stalls_without_progress_witness:
  "Wait [(kEventTimeout, 0), (kEventTimeout, 5), (kEventTimeout, 5)] = WaitStalled"
  using Wait_stalls_without_progress
    [of "[(kEventTimeout, 0), (kEventTimeout, 5), (kEventTimeout, 5)]"]
  by simp

subsection \<open>Pairing rendered frames with captured frames\<close>

lemma AddFrameComparison_fields:
  "frames (AddFrameComparison f g d r s) = frames s"
  "last_rendered_frame (AddFrameComparison f g d r s) = last_rendered_frame s"
  "rtp_timestamp_delta (AddFrameComparison f g d r s) = rtp_timestamp_delta s"
  by (simp_all add: AddFrameComparison_def Let_def)

lemma AddFrameComparison_enqueues:
  "comparisons (AddFrameComparison f g d r s) = comparisons s @
     [\<lparr>reference = f, render = g, dropped = d,
       send_time_ms = (case send_times s (timestamp f) of None \<Rightarrow> 0 | Some v \<Rightarrow> v),
       recv_time_ms = (case recv_times s (timestamp f) of None \<Rightarrow> 0 | Some v \<Rightarrow> v),
       render_time_ms = r\<rparr>]"
  by (simp add: AddFrameComparison_def Let_def)

lemma RenderFrame_loop_Inr:
  assumes "RenderFrame_loop t r s = Inr s'"
  shows "frames s' = dropWhile (\<lambda>f. timestamp f < t) (frames s) \<and> frames s' \<noteq> []
       \<and> (\<exists>new. comparisons s' = comparisons s @ new
             \<and> map reference new = takeWhile (\<lambda>f. timestamp f < t) (frames s)
             \<and> (\<forall>c \<in> set new. dropped c \<and> render c = last_rendered_frame s
                    \<and> render_time_ms c = r))
       \<and> last_rendered_frame s' = last_rendered_frame s
       \<and> rtp_timestamp_delta s' = rtp_timestamp_delta s"
  using assms
proof (induction t r s rule: RenderFrame_loop.induct)
  case (1 t r s)
  show ?case
  proof (cases "frames s")
    case Nil
    with "1.prems" show ?thesis by (simp add: RenderFrame_loop.simps)
  next
    case (Cons f fs)
    show ?thesis
    proof (cases "timestamp f < t")
      case True
      let ?s1 = "(AddFrameComparison f (last_rendered_frame s) True r s)\<lparr>frames := fs\<rparr>"
      from "1.prems" Cons True have run: "RenderFrame_loop t r ?s1 = Inr s'"
        by (subst (asm) RenderFrame_loop.simps) simp
      from "1.IH" [OF Cons True run] obtain new where
        fr: "frames s' = dropWhile (\<lambda>f. timestamp f < t) fs" "frames s' \<noteq> []"
        and cs: "comparisons s' = comparisons ?s1 @ new"
        and refs: "map reference new = takeWhile (\<lambda>f. timestamp f < t) fs"
        and each: "\<forall>c \<in> set new. dropped c \<and> render c = last_rendered_frame s
                     \<and> render_time_ms c = r"
        and same: "last_rendered_frame s' = last_rendered_frame s"
          "rtp_timestamp_delta s' = rtp_timestamp_delta s"
        by (auto simp: AddFrameComparison_fields)
      let ?c = "\<lparr>reference = f, render = last_rendered_frame s, dropped = True,
         send_time_ms = (case send_times s (timestamp f) of None \<Rightarrow> 0 | Some v \<Rightarrow> v),
         recv_time_ms = (case recv_times s (timestamp f) of None \<Rightarrow> 0 | Some v \<Rightarrow> v),
         render_time_ms = r\<rparr>"
      have "comparisons s' = comparisons s @ (?c # new)"
        using cs by (simp add: AddFrameComparison_enqueues)
      moreover have "map reference (?c # new) = takeWhile (\<lambda>f. timestamp f < t) (frames s)"
        using refs Cons True by simp
      moreover have "\<forall>c \<in> set (?c # new). dropped c \<and> render c = last_rendered_frame s
                     \<and> render_time_ms c = r"
        using each by simp
      ultimately have "\<exists>new. comparisons s' = comparisons s @ new
             \<and> map reference new = takeWhile (\<lambda>f. timestamp f < t) (frames s)
             \<and> (\<forall>c \<in> set new. dropped c \<and> render c = last_rendered_frame s
                    \<and> render_time_ms c = r)"
        by blast
      with fr same Cons True show ?thesis by simp
    next
      case False
      with "1.prems" Cons have "s' = s"
        by (subst (asm) RenderFrame_loop.simps) simp
      with Cons False show ?thesis by simp
    qed
  qed
qed

lemma RenderFrame_loop_Inl:
  "RenderFrame_loop t r s = Inl e \<Longrightarrow>
     e = FrontOfEmptyDeque \<and> dropWhile (\<lambda>f. timestamp f < t) (frames s) = []"
proof (induction t r s rule: RenderFrame_loop.induct)
  case (1 t r s)
  show ?case
  proof (cases "frames s")
    case Nil
    with "1.prems" show ?thesis by (simp add: RenderFrame_loop.simps)
  next
    case (Cons f fs)
    show ?thesis
    proof (cases "timestamp f < t")
      case True
      let ?s1 = "(AddFrameComparison f (last_rendered_frame s) True r s)\<lparr>frames := fs\<rparr>"
      from "1.prems" Cons True have run: "RenderFrame_loop t r ?s1 = Inl e"
        by (subst (asm) RenderFrame_loop.simps) simp
      from "1.IH" [OF Cons True run] Cons True show ?thesis by simp
    next
      case False
      with "1.prems" Cons show ?thesis
        by (subst (asm) RenderFrame_loop.simps) simp
    qed
  qed
qed

text \<open>
  C1. With \<open>send_timestamp = timestamp vf - rtp_timestamp_delta\<close> in 32-bit arithmetic,
  a call of \<^verbatim>\<open>RenderFrame\<close> is decided by the first frame of the capture queue whose
  timestamp is not below \<open>send_timestamp\<close>. When that frame has exactly the timestamp
  \<open>send_timestamp\<close> (and is not the zero frame) the call returns, and the queue is left
  with the frames behind it. A call that returns has walked the queue as follows: the
  frames \<open>ds\<close> at the front whose timestamp is below \<open>send_timestamp\<close> were popped and
  enqueued, in order, as dropped comparisons against the frame rendered last; the next
  frame \<open>r\<close> has exactly the timestamp \<open>send_timestamp\<close>, was popped and enqueued as the
  one comparison that is not dropped, against the rendered frame; and the rendered frame
  is the new \<^verbatim>\<open>last_rendered_frame_\<close>. Hence every comparison of the call that is not
  dropped pairs a reference with a rendered frame whose timestamp minus the delta is the
  reference's. When the frame left at the front has another timestamp, or is the zero
  frame, the call ends in the failed assertion; when every frame of the queue is below
  \<open>send_timestamp\<close>, the loop reads the front of an empty deque.
\<close>

theorem RenderFrame_pairs_by_timestamp:
  "(\<forall>s'. RenderFrame vf ttr now s = Inr s' \<longrightarrow>
      (\<exists>ds r new c.
          frames s = ds @ r # frames s'
        \<and> (\<forall>f \<in> set ds. timestamp f < timestamp vf - rtp_timestamp_delta s)
        \<and> timestamp r = timestamp vf - rtp_timestamp_delta s
        \<and> comparisons s' = comparisons s @ new @ [c]
        \<and> map reference new = ds
        \<and> (\<forall>d \<in> set new. dropped d \<and> render d = last_rendered_frame s)
        \<and> reference c = r \<and> render c = vf \<and> \<not> dropped c
        \<and> last_rendered_frame s' = vf
        \<and> (\<forall>d \<in> set (new @ [c]). \<not> dropped d \<longrightarrow>
              timestamp (reference d) = timestamp (render d) - rtp_timestamp_delta s)))
   \<and> (\<forall>r rest. dropWhile (\<lambda>f. timestamp f < timestamp vf - rtp_timestamp_delta s) (frames s)
                  = r # rest
               \<and> \<not> IsZeroSize r
               \<and> timestamp r = timestamp vf - rtp_timestamp_delta s
          \<longrightarrow> (\<exists>s'. RenderFrame vf ttr now s = Inr s' \<and> frames s' = rest))
   \<and> (\<forall>r rest. dropWhile (\<lambda>f. timestamp f < timestamp vf - rtp_timestamp_delta s) (frames s)
                  = r # rest
               \<and> timestamp r \<noteq> timestamp vf - rtp_timestamp_delta s
          \<longrightarrow> RenderFrame vf ttr now s = Inl AssertFailed)
   \<and> (\<forall>r rest. dropWhile (\<lambda>f. timestamp f < timestamp vf - rtp_timestamp_delta s) (frames s)
                  = r # rest
               \<and> IsZeroSize r
          \<longrightarrow> RenderFrame vf ttr now s = Inl AssertFailed)
   \<and> (dropWhile (\<lambda>f. timestamp f < timestamp vf - rtp_timestamp_delta s) (frames s) = []
          \<longrightarrow> RenderFrame vf ttr now s = Inl FrontOfEmptyDeque)"
proof (intro conjI allI impI)
  fix s'
  let ?t = "timestamp vf - rtp_timestamp_delta s"
  assume ok: "RenderFrame vf ttr now s = Inr s'"
  then obtain s1 where loop: "RenderFrame_loop ?t now s = Inr s1"
    by (auto simp: RenderFrame_def Let_def split: sum.splits)
  from RenderFrame_loop_Inr [OF loop] obtain new where
    fr: "frames s1 = dropWhile (\<lambda>f. timestamp f < ?t) (frames s)"
    and cs: "comparisons s1 = comparisons s @ new"
    and refs: "map reference new = takeWhile (\<lambda>f. timestamp f < ?t) (frames s)"
    and each: "\<forall>c \<in> set new. dropped c \<and> render c = last_rendered_frame s \<and> render_time_ms c = now"
    by blast
  from ok loop obtain r fs where front: "frames s1 = r # fs"
    and ts: "timestamp r = ?t"
    and s': "s' = (AddFrameComparison r vf False now (s1\<lparr>frames := fs\<rparr>))
                    \<lparr>last_rendered_frame := vf\<rparr>"
    by (auto simp: RenderFrame_def Let_def split: sum.splits list.splits if_splits)
  let ?c = "\<lparr>reference = r, render = vf, dropped = False,
       send_time_ms = (case send_times s1 (timestamp r) of None \<Rightarrow> 0 | Some v \<Rightarrow> v),
       recv_time_ms = (case recv_times s1 (timestamp r) of None \<Rightarrow> 0 | Some v \<Rightarrow> v),
       render_time_ms = now\<rparr>"
  let ?ds = "takeWhile (\<lambda>f. timestamp f < ?t) (frames s)"
  have a: "frames s = ?ds @ r # frames s'"
    using fr front s' takeWhile_dropWhile_id [of "\<lambda>f. timestamp f < ?t" "frames s"]
    by (simp add: AddFrameComparison_fields)
  have b: "\<forall>f \<in> set ?ds. timestamp f < ?t"
    by (auto dest: set_takeWhileD)
  have c: "comparisons s' = comparisons s @ new @ [?c]"
    using cs s' by (simp add: AddFrameComparison_enqueues)
  have d: "\<forall>d \<in> set (new @ [?c]). \<not> dropped d \<longrightarrow>
              timestamp (reference d) = timestamp (render d) - rtp_timestamp_delta s"
    using each ts by auto
  have e: "last_rendered_frame s' = vf"
    using s' by simp
  have f: "\<forall>d \<in> set new. dropped d \<and> render d = last_rendered_frame s"
    using each by blast
  have g: "reference ?c = r \<and> render ?c = vf \<and> \<not> dropped ?c"
    by simp
  from a b ts c refs f g e d
  show "\<exists>ds r new c.
          frames s = ds @ r # frames s'
        \<and> (\<forall>f \<in> set ds. timestamp f < ?t)
        \<and> timestamp r = ?t
        \<and> comparisons s' = comparisons s @ new @ [c]
        \<and> map reference new = ds
        \<and> (\<forall>d \<in> set new. dropped d \<and> render d = last_rendered_frame s)
        \<and> reference c = r \<and> render c = vf \<and> \<not> dropped c
        \<and> last_rendered_frame s' = vf
        \<and> (\<forall>d \<in> set (new @ [c]). \<not> dropped d \<longrightarrow>
              timestamp (reference d) = timestamp (render d) - rtp_timestamp_delta s)"
    by blast
next
  fix r rest
  let ?t = "timestamp vf - rtp_timestamp_delta s"
  assume h: "dropWhile (\<lambda>f. timestamp f < ?t) (frames s) = r # rest
             \<and> \<not> IsZeroSize r \<and> timestamp r = ?t"
  show "\<exists>s'. RenderFrame vf ttr now s = Inr s' \<and> frames s' = rest"
  proof (cases "RenderFrame_loop ?t now s")
    case (Inl e)
    from RenderFrame_loop_Inl [OF Inl] h show ?thesis by simp
  next
    case (Inr s1)
    from RenderFrame_loop_Inr [OF Inr] h have front: "frames s1 = r # rest" by simp
    let ?s' = "(AddFrameComparison r vf False now (s1\<lparr>frames := rest\<rparr>))
                 \<lparr>last_rendered_frame := vf\<rparr>"
    have "RenderFrame vf ttr now s = Inr ?s'"
      using Inr front h by (simp add: RenderFrame_def Let_def)
    moreover have "frames ?s' = rest"
      by (simp add: AddFrameComparison_fields)
    ultimately show ?thesis by blast
  qed
next
  fix r rest
  let ?t = "timestamp vf - rtp_timestamp_delta s"
  assume h: "dropWhile (\<lambda>f. timestamp f < ?t) (frames s) = r # rest \<and> timestamp r \<noteq> ?t"
  show "RenderFrame vf ttr now s = Inl AssertFailed"
  proof (cases "RenderFrame_loop ?t now s")
    case (Inl e)
    from RenderFrame_loop_Inl [OF Inl] h show ?thesis by simp
  next
    case (Inr s1)
    from RenderFrame_loop_Inr [OF Inr] h have "frames s1 = r # rest" by simp
    with Inr h show ?thesis by (simp add: RenderFrame_def Let_def)
  qed
next
  fix r rest
  let ?t = "timestamp vf - rtp_timestamp_delta s"
  assume h: "dropWhile (\<lambda>f. timestamp f < ?t) (frames s) = r # rest \<and> IsZeroSize r"
  show "RenderFrame vf ttr now s = Inl AssertFailed"
  proof (cases "RenderFrame_loop ?t now s")
    case (Inl e)
    from RenderFrame_loop_Inl [OF Inl] h show ?thesis by simp
  next
    case (Inr s1)
    from RenderFrame_loop_Inr [OF Inr] h have "frames s1 = r # rest" by simp
    with Inr h show ?thesis by (simp add: RenderFrame_def Let_def)
  qed
next
  let ?t = "timestamp vf - rtp_timestamp_delta s"
  assume h: "dropWhile (\<lambda>f. timestamp f < ?t) (frames s) = []"
  show "RenderFrame vf ttr now s = Inl FrontOfEmptyDeque"
  proof (cases "RenderFrame_loop ?t now s")
    case (Inl e)
    from RenderFrame_loop_Inl [OF Inl] have "e = FrontOfEmptyDeque" by simp
    with Inl show ?thesis by (simp add: RenderFrame_def Let_def)
  next
    case (Inr s1)
    from RenderFrame_loop_Inr [OF Inr]
    have "frames s1 = dropWhile (\<lambda>f. timestamp f < ?t) (frames s)" and "frames s1 \<noteq> []"
      by blast+
    with h show ?thesis by simp
  qed
qed

theorem RenderFrame_pairs_by_timestamp_witness:
  "(\<exists>s' c1 c2 c3.
      RenderFrame (decoded_frame 3 0) 0 20 three_captured = Inr s'
    \<and> comparisons s' = [c1, c2, c3]
    \<and> dropped c1 \<and> dropped c2 \<and> \<not> dropped c3
    \<and> timestamp (reference c3) = timestamp (render c3) - rtp_timestamp_delta three_captured)
   \<and> RenderFrame (decoded_frame 2 45) 0 20 three_captured = Inl AssertFailed"
proof -
  obtain s' where ok: "RenderFrame (decoded_frame 3 0) 0 20 three_captured = Inr s'"
    and len: "length (comparisons s') = 3"
    and cs: "comparisons three_captured = []"
    by (simp add: three_captured_def IncomingCapturedFrame_def RenderFrame_def
        RenderFrame_loop.simps VideoAnalyzer_init_def loopback_def wire0_def raw_frame_def
        decoded_frame_def Let_def set_timestamp_def IsZeroSize_def ZeroFrame_def
        AddFrameComparison_def)
  from RenderFrame_pairs_by_timestamp [of "decoded_frame 3 0" 0 20 three_captured] ok
  obtain ds r new c where
    split: "comparisons s' = comparisons three_captured @ new @ [c]"
    and drops: "\<forall>d \<in> set new. dropped d \<and> render d = last_rendered_frame three_captured"
    and kept: "\<not> dropped c"
    and ts: "\<forall>d \<in> set (new @ [c]). \<not> dropped d \<longrightarrow>
        timestamp (reference d) = timestamp (render d) - rtp_timestamp_delta three_captured"
    by blast
  from len cs split obtain c1 c2 where new: "new = [c1, c2]"
    by (cases new; cases "tl new"; cases "tl (tl new)") auto
  from new split cs drops kept ts ok have first:
    "\<exists>s' c1 c2 c3.
      RenderFrame (decoded_frame 3 0) 0 20 three_captured = Inr s'
    \<and> comparisons s' = [c1, c2, c3]
    \<and> dropped c1 \<and> dropped c2 \<and> \<not> dropped c3
    \<and> timestamp (reference c3) = timestamp (render c3) - rtp_timestamp_delta three_captured"
    by auto
  have front: "dropWhile (\<lambda>f. timestamp f
                   < timestamp (decoded_frame 2 45) - rtp_timestamp_delta three_captured)
                 (frames three_captured)
               = \<lparr>video_frame_buffer = Some [3], timestamp = 270, ntp_time_ms = 3\<rparr> # []
             \<and> timestamp \<lparr>video_frame_buffer = Some [3], timestamp = 270, ntp_time_ms = 3\<rparr>
                 \<noteq> timestamp (decoded_frame 2 45) - rtp_timestamp_delta three_captured"
    by (simp add: three_captured_def IncomingCapturedFrame_def VideoAnalyzer_init_def
        loopback_def wire0_def raw_frame_def decoded_frame_def Let_def set_timestamp_def
        IsZeroSize_def ZeroFrame_def)
  from RenderFrame_pairs_by_timestamp [of "decoded_frame 2 45" 0 20 three_captured] front
  have "RenderFrame (decoded_frame 2 45) 0 20 three_captured = Inl AssertFailed"
    by blast
  with first show ?thesis by blast
qed

subsection \<open>The invariant of the thread pool\<close>

lemma length_filter_update_nat:
  "i < length xs \<Longrightarrow>
     length (filter P (xs[i := y])) + (if P (xs ! i) then 1 else 0) =
       length (filter P xs) + (if P y then 1 else 0)"
proof (induction xs arbitrary: i)
  case Nil
  then show ?case by simp
next
  case (Cons x xs)
  show ?case
  proof (cases i)
    case 0
    then show ?thesis by simp
  next
    case (Suc j)
    with Cons.prems have "j < length xs" by simp
    from Cons.IH [OF this] Suc show ?thesis by simp
  qed
qed

lemma count_pc_set_pc:
  assumes "i < length (comparison_thread_pool s)"
  shows "count_pc P (set_pc i pc s) =
       count_pc P s - (if P (comparison_thread_pool s ! i) then 1 else 0)
         + (if P pc then 1 else 0)"
proof -
  have "int (length (filter P ((comparison_thread_pool s)[i := pc])))
          + (if P (comparison_thread_pool s ! i) then 1 else 0)
        = int (length (filter P (comparison_thread_pool s))) + (if P pc then 1 else 0)"
    using length_filter_update_nat [OF assms, of P pc] by (simp split: if_splits)
  then show ?thesis by (simp add: count_pc_def set_pc_def)
qed

lemma count_pc_pos:
  assumes "i < length (comparison_thread_pool s)" and "P (comparison_thread_pool s ! i)"
  shows "1 \<le> count_pc P s"
proof -
  from assms have "comparison_thread_pool s ! i \<in> set (filter P (comparison_thread_pool s))"
    by simp
  then have "filter P (comparison_thread_pool s) \<noteq> []"
    by (metis empty_iff empty_set)
  then show ?thesis
    by (cases "filter P (comparison_thread_pool s)") (simp_all add: count_pc_def)
qed

lemma count_pc_mono:
  assumes pq: "\<And>pc. P pc \<Longrightarrow> Q pc"
  shows "count_pc P s \<le> count_pc Q s"
proof -
  have "length (filter P xs) \<le> length (filter Q xs)" for xs
    by (induction xs) (auto simp: pq)
  then show ?thesis by (simp add: count_pc_def)
qed

lemma count_pc_nonneg: "0 \<le> count_pc P s"
  by (simp add: count_pc_def)

lemma pool_inv_cong:
  "comparison_side s' = comparison_side s \<Longrightarrow> pool_inv N s' = pool_inv N s"
  by (simp add: comparison_side_def pool_inv_def count_pc_def)

lemma comparison_side_set_pc:
  "comparison_side (set_pc i pc s) =
     (fst (comparison_side s), fst (snd (comparison_side s)),
      (comparison_thread_pool s)[i := pc], done_event s, results_printed s)"
  by (simp add: comparison_side_def set_pc_def)

lemma pool_inv_set_pc:
  assumes "pool_inv N s" and "i < length (comparison_thread_pool s)"
    and "in_flight pc = in_flight (comparison_thread_pool s ! i)"
    and "(pc = AtFrameProcessed) = (comparison_thread_pool s ! i = AtFrameProcessed)"
    and "(pc = AtPrintResults) = (comparison_thread_pool s ! i = AtPrintResults)"
  shows "pool_inv N (set_pc i pc s)"
proof -
  have c: "count_pc in_flight (set_pc i pc s) = count_pc in_flight s"
    "count_pc (\<lambda>pc. pc = AtFrameProcessed) (set_pc i pc s) = count_pc (\<lambda>pc. pc = AtFrameProcessed) s"
    "count_pc (\<lambda>pc. pc = AtPrintResults) (set_pc i pc s) = count_pc (\<lambda>pc. pc = AtPrintResults) s"
    using assms(2-5) by (simp_all add: count_pc_set_pc)
  have f: "frames_to_process (set_pc i pc s) = frames_to_process s"
    "frames_recorded (set_pc i pc s) = frames_recorded s"
    "frames_processed (set_pc i pc s) = frames_processed s"
    "dropped_frames (set_pc i pc s) = dropped_frames s"
    "psnr (set_pc i pc s) = psnr s" "ssim (set_pc i pc s) = ssim s"
    "sender_time (set_pc i pc s) = sender_time s"
    "receiver_time (set_pc i pc s) = receiver_time s"
    "end_to_end (set_pc i pc s) = end_to_end s"
    "done_event (set_pc i pc s) = done_event s"
    "results_printed (set_pc i pc s) = results_printed s"
    by (simp_all add: set_pc_def)
  from assms(1) show ?thesis
    unfolding pool_inv_def c f .
qed

lemma pool_inv_event [simp]:
  "pool_inv N (s\<lparr>comparison_available_event := b\<rparr>) = pool_inv N s"
  by (rule pool_inv_cong) (simp add: comparison_side_def)

lemma AllFramesRecorded_inv:
  "pool_inv N s \<Longrightarrow> AllFramesRecorded s = Inr (frames_recorded s = N)"
  by (simp add: AllFramesRecorded_def pool_inv_def)

lemma step_AtStart:
  assumes inv: "pool_inv N s" and i: "i < length (comparison_thread_pool s)"
    and pc: "comparison_thread_pool s ! i = AtStart"
  shows "\<exists>s'. CompareFrames_step X i s = Inr s' \<and> pool_inv N s'"
proof -
  let ?pc = "if frames_recorded s = N then Stopped else AtPopComparison"
  have "CompareFrames_step X i s = Inr (set_pc i ?pc s)"
    using i pc AllFramesRecorded_inv [OF inv] by (simp add: CompareFrames_step_def)
  moreover have "pool_inv N (set_pc i ?pc s)"
    using inv i pc by (intro pool_inv_set_pc) (simp_all add: in_flight_def)
  ultimately show ?thesis by blast
qed

lemma step_AtEventWait:
  assumes inv: "pool_inv N s" and i: "i < length (comparison_thread_pool s)"
    and pc: "comparison_thread_pool s ! i = AtEventWait"
  shows "\<exists>s'. CompareFrames_step X i s = Inr s' \<and> pool_inv N s'"
proof -
  let ?s1 = "s\<lparr>comparison_available_event := False\<rparr>"
  have inv1: "pool_inv N ?s1" using inv by simp
  have rec: "AllFramesRecorded ?s1 = Inr (frames_recorded s = N)"
    using AllFramesRecorded_inv [OF inv1] by simp
  let ?s' = "if frames_recorded s = N
             then set_pc i Stopped (?s1\<lparr>comparison_available_event := True\<rparr>)
             else set_pc i AtStart ?s1"
  have "CompareFrames_step X i s = Inr ?s'"
    using i pc rec by (simp add: CompareFrames_step_def Let_def)
  moreover have "pool_inv N (set_pc i Stopped (?s1\<lparr>comparison_available_event := True\<rparr>))"
    using inv i pc by (intro pool_inv_set_pc) (simp_all add: in_flight_def)
  moreover have "pool_inv N (set_pc i AtStart ?s1)"
    using inv i pc by (intro pool_inv_set_pc) (simp_all add: in_flight_def)
  ultimately show ?thesis by (cases "frames_recorded s = N") auto
qed

lemma step_AtPopComparison:
  assumes inv: "pool_inv N s" and i: "i < length (comparison_thread_pool s)"
    and pc: "comparison_thread_pool s ! i = AtPopComparison"
  shows "\<exists>s'. CompareFrames_step X i s = Inr s' \<and> pool_inv N s'"
proof (cases "comparisons s = [] \<or> frames_recorded s = N")
  case True
  have "PopComparison s = Inr (None, s)"
    using True AllFramesRecorded_inv [OF inv]
    by (auto simp: PopComparison_def split: list.splits)
  then have "CompareFrames_step X i s = Inr (set_pc i AtEventWait s)"
    using i pc by (simp add: CompareFrames_step_def)
  moreover have "pool_inv N (set_pc i AtEventWait s)"
    using inv i pc by (intro pool_inv_set_pc) (simp_all add: in_flight_def)
  ultimately show ?thesis by blast
next
  case False
  then obtain c cs where q: "comparisons s = c # cs" and more: "frames_recorded s \<noteq> N"
    by (cases "comparisons s") auto
  let ?s1 = "FrameRecorded (s\<lparr>comparisons := cs\<rparr>)"
  have "PopComparison s = Inr (Some c, ?s1)"
    using q more AllFramesRecorded_inv [OF inv] by (simp add: PopComparison_def)
  then have step: "CompareFrames_step X i s = Inr (set_pc i (AtPerform c) ?s1)"
    using i pc by (simp add: CompareFrames_step_def)
  have i1: "i < length (comparison_thread_pool ?s1)"
    using i by (simp add: FrameRecorded_def)
  have pc1: "comparison_thread_pool ?s1 ! i = AtPopComparison"
    using pc by (simp add: FrameRecorded_def)
  have cnt: "count_pc P ?s1 = count_pc P s" for P
    by (simp add: count_pc_def FrameRecorded_def)
  have c: "count_pc in_flight (set_pc i (AtPerform c) ?s1) = count_pc in_flight s + 1"
    "count_pc (\<lambda>pc. pc = AtFrameProcessed) (set_pc i (AtPerform c) ?s1)
       = count_pc (\<lambda>pc. pc = AtFrameProcessed) s"
    "count_pc (\<lambda>pc. pc = AtPrintResults) (set_pc i (AtPerform c) ?s1)
       = count_pc (\<lambda>pc. pc = AtPrintResults) s"
    using i1 pc1 by (simp_all add: count_pc_set_pc cnt in_flight_def)
  have f: "frames_to_process (set_pc i (AtPerform c) ?s1) = frames_to_process s"
    "frames_recorded (set_pc i (AtPerform c) ?s1) = frames_recorded s + 1"
    "frames_processed (set_pc i (AtPerform c) ?s1) = frames_processed s"
    "dropped_frames (set_pc i (AtPerform c) ?s1) = dropped_frames s"
    "psnr (set_pc i (AtPerform c) ?s1) = psnr s" "ssim (set_pc i (AtPerform c) ?s1) = ssim s"
    "sender_time (set_pc i (AtPerform c) ?s1) = sender_time s"
    "receiver_time (set_pc i (AtPerform c) ?s1) = receiver_time s"
    "end_to_end (set_pc i (AtPerform c) ?s1) = end_to_end s"
    "done_event (set_pc i (AtPerform c) ?s1) = done_event s"
    "results_printed (set_pc i (AtPerform c) ?s1) = results_printed s"
    by (simp_all add: set_pc_def FrameRecorded_def)
  have "pool_inv N (set_pc i (AtPerform c) ?s1)"
    using inv more unfolding pool_inv_def c f by auto
  with step show ?thesis by blast
qed

lemma PerformFrameComparison_fields:
  "frames_to_process (PerformFrameComparison X c s) = frames_to_process s"
  "frames_recorded (PerformFrameComparison X c s) = frames_recorded s"
  "frames_processed (PerformFrameComparison X c s) = frames_processed s"
  "comparison_thread_pool (PerformFrameComparison X c s) = comparison_thread_pool s"
  "done_event (PerformFrameComparison X c s) = done_event s"
  "results_printed (PerformFrameComparison X c s) = results_printed s"
  "comparisons (PerformFrameComparison X c s) = comparisons s"
  "encoded_frame_size (PerformFrameComparison X c s) = encoded_frame_size s"
  by (simp_all add: PerformFrameComparison_def Let_def)

lemma PerformFrameComparison_samples:
  "psnr (PerformFrameComparison X c s) = psnr s @ [I420PSNR X (reference c) (render c)]"
  "ssim (PerformFrameComparison X c s) = ssim s @ [I420SSIM X (reference c) (render c)]"
  "sender_time (PerformFrameComparison X c s) =
     (if dropped c then sender_time s
      else sender_time s @ [send_time_ms c - ntp_time_ms (reference c)])"
  "receiver_time (PerformFrameComparison X c s) =
     (if dropped c then receiver_time s
      else receiver_time s @ [render_time_ms c - recv_time_ms c])"
  "end_to_end (PerformFrameComparison X c s) =
     (if dropped c then end_to_end s
      else end_to_end s @ [render_time_ms c - ntp_time_ms (reference c)])"
  "dropped_frames (PerformFrameComparison X c s) =
     (if dropped c then dropped_frames s + 1 else dropped_frames s)"
  by (simp_all add: PerformFrameComparison_def Let_def AddSample_def)

lemma step_AtPerform:
  assumes inv: "pool_inv N s" and i: "i < length (comparison_thread_pool s)"
    and pc: "comparison_thread_pool s ! i = AtPerform c"
  shows "\<exists>s'. CompareFrames_step X i s = Inr s' \<and> pool_inv N s'"
proof -
  let ?s1 = "PerformFrameComparison X c s"
  have step: "CompareFrames_step X i s = Inr (set_pc i AtFrameProcessed ?s1)"
    using i pc by (simp add: CompareFrames_step_def)
  have i1: "i < length (comparison_thread_pool ?s1)"
    using i by (simp add: PerformFrameComparison_fields)
  have pc1: "comparison_thread_pool ?s1 ! i = AtPerform c"
    using pc by (simp add: PerformFrameComparison_fields)
  have cnt: "count_pc P ?s1 = count_pc P s" for P
    by (simp add: count_pc_def PerformFrameComparison_fields)
  have c: "count_pc in_flight (set_pc i AtFrameProcessed ?s1) = count_pc in_flight s"
    "count_pc (\<lambda>pc. pc = AtFrameProcessed) (set_pc i AtFrameProcessed ?s1)
       = count_pc (\<lambda>pc. pc = AtFrameProcessed) s + 1"
    "count_pc (\<lambda>pc. pc = AtPrintResults) (set_pc i AtFrameProcessed ?s1)
       = count_pc (\<lambda>pc. pc = AtPrintResults) s"
    using i1 pc1 by (simp_all add: count_pc_set_pc cnt in_flight_def)
  have f: "frames_to_process (set_pc i AtFrameProcessed ?s1) = frames_to_process s"
    "frames_recorded (set_pc i AtFrameProcessed ?s1) = frames_recorded s"
    "frames_processed (set_pc i AtFrameProcessed ?s1) = frames_processed s"
    "done_event (set_pc i AtFrameProcessed ?s1) = done_event s"
    "results_printed (set_pc i AtFrameProcessed ?s1) = results_printed s"
    by (simp_all add: set_pc_def PerformFrameComparison_fields)
  have g: "dropped_frames (set_pc i AtFrameProcessed ?s1) = dropped_frames ?s1"
    "psnr (set_pc i AtFrameProcessed ?s1) = psnr ?s1"
    "ssim (set_pc i AtFrameProcessed ?s1) = ssim ?s1"
    "sender_time (set_pc i AtFrameProcessed ?s1) = sender_time ?s1"
    "receiver_time (set_pc i AtFrameProcessed ?s1) = receiver_time ?s1"
    "end_to_end (set_pc i AtFrameProcessed ?s1) = end_to_end ?s1"
    by (simp_all add: set_pc_def)
  have "pool_inv N (set_pc i AtFrameProcessed ?s1)"
    using inv unfolding pool_inv_def c f g PerformFrameComparison_samples by auto
  with step show ?thesis by blast
qed

lemma step_AtFrameProcessed:
  assumes inv: "pool_inv N s" and i: "i < length (comparison_thread_pool s)"
    and pc: "comparison_thread_pool s ! i = AtFrameProcessed"
  shows "\<exists>s'. CompareFrames_step X i s = Inr s' \<and> pool_inv N s'"
proof -
  let ?s1 = "s\<lparr>frames_processed := frames_processed s + 1\<rparr>"
  let ?pc = "if frames_processed s + 1 = N then AtPrintResults else AtStart"
  have fl: "1 \<le> count_pc in_flight s"
    using i pc by (intro count_pc_pos [of i]) (simp_all add: in_flight_def)
  with inv have room: "frames_processed s + 1 \<le> N" and fp: "frames_processed s \<noteq> N"
    and N: "frames_to_process s = N"
    by (simp_all add: pool_inv_def)
  have "FrameProcessed s = Inr (frames_processed s + 1 = N, ?s1)"
    using room N by (simp add: FrameProcessed_def Let_def)
  then have step: "CompareFrames_step X i s = Inr (set_pc i ?pc ?s1)"
    using i pc by (simp add: CompareFrames_step_def)
  have i1: "i < length (comparison_thread_pool ?s1)"
    using i by simp
  have pc1: "comparison_thread_pool ?s1 ! i = AtFrameProcessed"
    using pc by simp
  have cnt: "count_pc P ?s1 = count_pc P s" for P
    by (simp add: count_pc_def)
  have c: "count_pc in_flight (set_pc i ?pc ?s1) = count_pc in_flight s - 1"
    "count_pc (\<lambda>pc. pc = AtFrameProcessed) (set_pc i ?pc ?s1)
       = count_pc (\<lambda>pc. pc = AtFrameProcessed) s - 1"
    "count_pc (\<lambda>pc. pc = AtPrintResults) (set_pc i ?pc ?s1)
       = count_pc (\<lambda>pc. pc = AtPrintResults) s + (if frames_processed s + 1 = N then 1 else 0)"
    using i1 pc1 by (simp_all add: count_pc_set_pc cnt in_flight_def)
  have f: "frames_to_process (set_pc i ?pc ?s1) = frames_to_process s"
    "frames_recorded (set_pc i ?pc ?s1) = frames_recorded s"
    "frames_processed (set_pc i ?pc ?s1) = frames_processed s + 1"
    "dropped_frames (set_pc i ?pc ?s1) = dropped_frames s"
    "psnr (set_pc i ?pc ?s1) = psnr s" "ssim (set_pc i ?pc ?s1) = ssim s"
    "sender_time (set_pc i ?pc ?s1) = sender_time s"
    "receiver_time (set_pc i ?pc ?s1) = receiver_time s"
    "end_to_end (set_pc i ?pc ?s1) = end_to_end s"
    "done_event (set_pc i ?pc ?s1) = done_event s"
    "results_printed (set_pc i ?pc ?s1) = results_printed s"
    by (simp_all add: set_pc_def)
  have "pool_inv N (set_pc i ?pc ?s1)"
    using inv room fp unfolding pool_inv_def c f by auto
  with step show ?thesis by blast
qed

lemma step_AtPrintResults:
  assumes inv: "pool_inv N s" and i: "i < length (comparison_thread_pool s)"
    and pc: "comparison_thread_pool s ! i = AtPrintResults"
  shows "\<exists>s'. CompareFrames_step X i s = Inr s' \<and> pool_inv N s' \<and> done_event s'"
proof -
  let ?s1 = "(PrintResults s)\<lparr>done_event := True, comparison_available_event := True\<rparr>"
  have step: "CompareFrames_step X i s = Inr (set_pc i Stopped ?s1)"
    using i pc by (simp add: CompareFrames_step_def)
  have pr: "1 \<le> count_pc (\<lambda>pc. pc = AtPrintResults) s"
    using i pc by (intro count_pc_pos [of i]) simp_all
  with inv have np: "results_printed s = 0"
    by (auto simp: pool_inv_def split: if_splits)
  have i1: "i < length (comparison_thread_pool ?s1)"
    using i by (simp add: PrintResults_def)
  have pc1: "comparison_thread_pool ?s1 ! i = AtPrintResults"
    using pc by (simp add: PrintResults_def)
  have cnt: "count_pc P ?s1 = count_pc P s" for P
    by (simp add: count_pc_def PrintResults_def)
  have c: "count_pc in_flight (set_pc i Stopped ?s1) = count_pc in_flight s"
    "count_pc (\<lambda>pc. pc = AtFrameProcessed) (set_pc i Stopped ?s1)
       = count_pc (\<lambda>pc. pc = AtFrameProcessed) s"
    "count_pc (\<lambda>pc. pc = AtPrintResults) (set_pc i Stopped ?s1)
       = count_pc (\<lambda>pc. pc = AtPrintResults) s - 1"
    using i1 pc1 by (simp_all add: count_pc_set_pc cnt in_flight_def)
  have f: "frames_to_process (set_pc i Stopped ?s1) = frames_to_process s"
    "frames_recorded (set_pc i Stopped ?s1) = frames_recorded s"
    "frames_processed (set_pc i Stopped ?s1) = frames_processed s"
    "dropped_frames (set_pc i Stopped ?s1) = dropped_frames s"
    "psnr (set_pc i Stopped ?s1) = psnr s" "ssim (set_pc i Stopped ?s1) = ssim s"
    "sender_time (set_pc i Stopped ?s1) = sender_time s"
    "receiver_time (set_pc i Stopped ?s1) = receiver_time s"
    "end_to_end (set_pc i Stopped ?s1) = end_to_end s"
    "done_event (set_pc i Stopped ?s1) = True"
    "results_printed (set_pc i Stopped ?s1) = results_printed s + 1"
    by (simp_all add: set_pc_def PrintResults_def)
  have "pool_inv N (set_pc i Stopped ?s1)"
    using inv np unfolding pool_inv_def c f by (auto split: if_splits)
  moreover have "done_event (set_pc i Stopped ?s1)"
    by (simp add: f)
  ultimately show ?thesis using step by blast
qed

lemma CompareFrames_step_inv:
  assumes inv: "pool_inv N s"
  shows "\<exists>s'. CompareFrames_step X i s = Inr s' \<and> pool_inv N s'"
proof (cases "i < length (comparison_thread_pool s)")
  case False
  with inv show ?thesis by (simp add: CompareFrames_step_def)
next
  case True
  show ?thesis
  proof (cases "comparison_thread_pool s ! i")
    case AtStart
    with inv True show ?thesis by (rule step_AtStart)
  next
    case AtPopComparison
    with inv True show ?thesis by (rule step_AtPopComparison)
  next
    case AtEventWait
    with inv True show ?thesis by (rule step_AtEventWait)
  next
    case (AtPerform c)
    with inv True show ?thesis by (rule step_AtPerform)
  next
    case AtFrameProcessed
    with inv True show ?thesis by (rule step_AtFrameProcessed)
  next
    case AtPrintResults
    from step_AtPrintResults [OF inv True this] show ?thesis by blast
  next
    case Stopped
    with inv True show ?thesis by (simp add: CompareFrames_step_def)
  qed
qed

subsection \<open>The callbacks leave the work of the threads alone\<close>

lemma comparison_side_AddFrameComparison:
  "comparison_side (AddFrameComparison f g d r s) = comparison_side s"
  "encoded_frame_size (AddFrameComparison f g d r s) = encoded_frame_size s"
  by (simp_all add: comparison_side_def AddFrameComparison_def Let_def)

lemma comparison_side_RenderFrame_loop:
  "RenderFrame_loop t r s = Inr s' \<Longrightarrow>
     comparison_side s' = comparison_side s \<and> encoded_frame_size s' = encoded_frame_size s"
proof (induction t r s rule: RenderFrame_loop.induct)
  case (1 t r s)
  show ?case
  proof (cases "frames s")
    case Nil
    with "1.prems" show ?thesis by (simp add: RenderFrame_loop.simps)
  next
    case (Cons f fs)
    show ?thesis
    proof (cases "timestamp f < t")
      case True
      let ?s0 = "AddFrameComparison f (last_rendered_frame s) True r s"
      let ?s1 = "?s0\<lparr>frames := fs\<rparr>"
      from "1.prems" Cons True have run: "RenderFrame_loop t r ?s1 = Inr s'"
        by (subst (asm) RenderFrame_loop.simps) simp
      have "comparison_side ?s1 = comparison_side ?s0"
        "encoded_frame_size ?s1 = encoded_frame_size ?s0"
        by (simp_all add: comparison_side_def)
      with "1.IH" [OF Cons True run] show ?thesis
        by (simp add: comparison_side_AddFrameComparison)
    next
      case False
      with "1.prems" Cons have "s' = s"
        by (subst (asm) RenderFrame_loop.simps) simp
      then show ?thesis by simp
    qed
  qed
qed

lemma comparison_side_RenderFrame:
  assumes "RenderFrame vf ttr now s = Inr s'"
  shows "comparison_side s' = comparison_side s \<and> encoded_frame_size s' = encoded_frame_size s"
proof -
  from assms obtain s1 r fs where loop:
    "RenderFrame_loop (timestamp vf - rtp_timestamp_delta s) now s = Inr s1"
    and s': "s' = (AddFrameComparison r vf False now (s1\<lparr>frames := fs\<rparr>))
                    \<lparr>last_rendered_frame := vf\<rparr>"
    by (auto simp: RenderFrame_def Let_def split: sum.splits list.splits if_splits)
  have "comparison_side s' = comparison_side (AddFrameComparison r vf False now (s1\<lparr>frames := fs\<rparr>))"
    "encoded_frame_size s' = encoded_frame_size (AddFrameComparison r vf False now (s1\<lparr>frames := fs\<rparr>))"
    unfolding s' by (simp_all add: comparison_side_def)
  moreover have "comparison_side (s1\<lparr>frames := fs\<rparr>) = comparison_side s1"
    "encoded_frame_size (s1\<lparr>frames := fs\<rparr>) = encoded_frame_size s1"
    by (simp_all add: comparison_side_def)
  ultimately show ?thesis
    using comparison_side_RenderFrame_loop [OF loop]
    by (simp add: comparison_side_AddFrameComparison)
qed

lemma comparison_side_callbacks:
  "comparison_side (fst (IncomingCapturedFrame X f st)) = comparison_side (fst st)"
  "comparison_side (fst (snd (SendRtp X pkt now st))) = comparison_side (fst st)"
  "comparison_side (fst (snd (SendRtcp X pkt st))) = comparison_side (fst st)"
  "comparison_side (fst (snd (DeliverPacket X m pkt now st))) = comparison_side (fst st)"
  "comparison_side (EncodedFrameCallback n s) = comparison_side s"
  by (simp_all add: IncomingCapturedFrame_def SendRtp_def SendRtcp_def DeliverPacket_def
      EncodedFrameCallback_def comparison_side_def Let_def split: prod.splits)

lemma encoded_frame_size_callbacks:
  "encoded_frame_size (fst (IncomingCapturedFrame X f st)) = encoded_frame_size (fst st)"
  "encoded_frame_size (fst (snd (SendRtp X pkt now st))) = encoded_frame_size (fst st)"
  "encoded_frame_size (fst (snd (SendRtcp X pkt st))) = encoded_frame_size (fst st)"
  "encoded_frame_size (fst (snd (DeliverPacket X m pkt now st))) = encoded_frame_size (fst st)"
  by (simp_all add: IncomingCapturedFrame_def SendRtp_def SendRtcp_def DeliverPacket_def
      Let_def split: prod.splits)

text \<open>Only a step of a thread changes what the threads work on.\<close>

lemma exec_callback_side:
  assumes "exec X a st = Inr st'" and "\<And>i. a \<noteq> Thread i"
  shows "comparison_side (fst st') = comparison_side (fst st)"
proof (cases a)
  case (Captured f)
  with assms(1) have "st' = IncomingCapturedFrame X f st" by simp
  then show ?thesis by (simp add: comparison_side_callbacks)
next
  case (SentRtp pkt now)
  with assms(1) have "st' = snd (SendRtp X pkt now st)" by simp
  then show ?thesis by (simp add: comparison_side_callbacks)
next
  case (SentRtcp pkt)
  with assms(1) have "st' = snd (SendRtcp X pkt st)" by simp
  then show ?thesis by (simp add: comparison_side_callbacks)
next
  case (Delivered m pkt now)
  with assms(1) have "st' = snd (DeliverPacket X m pkt now st)" by simp
  then show ?thesis by (simp add: comparison_side_callbacks)
next
  case (Encoded n)
  with assms(1) have "st' = (EncodedFrameCallback n (fst st), snd st)" by simp
  then show ?thesis by (simp add: comparison_side_callbacks)
next
  case (Rendered f t now)
  with assms(1) obtain s1 where "RenderFrame f t now (fst st) = Inr s1" "st' = (s1, snd st)"
    by (auto split: sum.splits)
  with comparison_side_RenderFrame [of f t now "fst st" s1] show ?thesis by simp
next
  case (Thread i)
  with assms(2) show ?thesis by blast
qed

lemma exec_inv:
  assumes "pool_inv N (fst st)" and "exec X a st = Inr st'"
  shows "pool_inv N (fst st')"
proof (cases "\<exists>i. a = Thread i")
  case True
  then obtain i where a: "a = Thread i" by blast
  from CompareFrames_step_inv [OF assms(1), of X i] obtain s1 where
    s1: "CompareFrames_step X i (fst st) = Inr s1" "pool_inv N s1" by blast
  from assms(2) a s1(1) have "st' = (s1, snd st)" by simp
  with s1(2) show ?thesis by simp
next
  case False
  then have "\<And>i. a \<noteq> Thread i" by blast
  from pool_inv_cong [OF exec_callback_side [OF assms(2) this]] assms(1) show ?thesis
    by simp
qed

subsection \<open>The invariant along a run\<close>

lemma pool_inv_init:
  "0 \<le> N \<Longrightarrow> pool_inv N (VideoAnalyzer_init N cores)"
  by (simp add: pool_inv_def VideoAnalyzer_init_def count_pc_def in_flight_def)

lemma run_inv:
  "pool_inv N (fst st) \<Longrightarrow> run X acts st = Inr st' \<Longrightarrow> pool_inv N (fst st')"
proof (induction acts arbitrary: st)
  case Nil
  then show ?case by simp
next
  case (Cons a acts)
  from Cons.prems(2) obtain st1 where e: "exec X a st = Inr st1" and r: "run X acts st1 = Inr st'"
    by (auto split: sum.splits)
  from Cons.IH [OF exec_inv [OF Cons.prems(1) e] r] show ?case .
qed

lemma trace_inv:
  "pool_inv N (fst st) \<Longrightarrow> s \<in> set (trace X acts st) \<Longrightarrow> pool_inv N s"
proof (induction acts arbitrary: st)
  case Nil
  then show ?case by simp
next
  case (Cons a acts)
  show ?case
  proof (cases "exec X a st")
    case (Inl e)
    with Cons.prems show ?thesis by simp
  next
    case (Inr st1)
    with Cons.prems have "s = fst st \<or> s \<in> set (trace X acts st1)" by simp
    then show ?thesis
    proof
      assume "s = fst st"
      with Cons.prems(1) show ?thesis by simp
    next
      assume "s \<in> set (trace X acts st1)"
      from Cons.IH [OF exec_inv [OF Cons.prems(1) Inr] this] show ?thesis .
    qed
  qed
qed

lemma trace_nonempty: "trace X acts st \<noteq> []"
  by (cases acts) simp_all

lemma hd_trace: "hd (trace X acts st) = fst st"
  by (cases acts) simp_all

lemma run_last_trace:
  "run X acts st = Inr st' \<Longrightarrow> last (trace X acts st) = fst st'"
proof (induction acts arbitrary: st)
  case Nil
  then show ?case by simp
next
  case (Cons a acts)
  from Cons.prems obtain st1 where e: "exec X a st = Inr st1" and r: "run X acts st1 = Inr st'"
    by (auto split: sum.splits)
  from Cons.IH [OF r] e show ?case by (simp add: trace_nonempty)
qed

subsection \<open>The counters only grow\<close>

lemma comparison_side_counters:
  assumes "comparison_side s' = comparison_side s"
  shows "frames_to_process s' = frames_to_process s" "frames_recorded s' = frames_recorded s"
    "frames_processed s' = frames_processed s"
  using assms by (simp_all add: comparison_side_def)

lemma CompareFrames_step_mono:
  assumes "CompareFrames_step X i s = Inr s'"
  shows "frames_to_process s' = frames_to_process s
       \<and> frames_recorded s \<le> frames_recorded s' \<and> frames_processed s \<le> frames_processed s'"
proof (cases "i < length (comparison_thread_pool s)")
  case False
  with assms show ?thesis by (simp add: CompareFrames_step_def)
next
  case True
  show ?thesis
  proof (cases "comparison_thread_pool s ! i")
    case AtStart
    with assms True show ?thesis
      by (auto simp: CompareFrames_step_def set_pc_def split: sum.splits bool.splits)
  next
    case AtPopComparison
    with assms True show ?thesis
      by (auto simp: CompareFrames_step_def set_pc_def PopComparison_def FrameRecorded_def
          split: sum.splits bool.splits list.splits option.splits)
  next
    case AtEventWait
    with assms True show ?thesis
      by (auto simp: CompareFrames_step_def set_pc_def Let_def split: sum.splits bool.splits)
  next
    case (AtPerform c)
    with assms True show ?thesis
      by (auto simp: CompareFrames_step_def set_pc_def PerformFrameComparison_fields)
  next
    case AtFrameProcessed
    with assms True show ?thesis
      by (auto simp: CompareFrames_step_def set_pc_def FrameProcessed_def Let_def
          split: sum.splits bool.splits if_splits)
  next
    case AtPrintResults
    with assms True show ?thesis
      by (auto simp: CompareFrames_step_def set_pc_def PrintResults_def)
  next
    case Stopped
    with assms True show ?thesis by (simp add: CompareFrames_step_def)
  qed
qed

lemma exec_mono:
  assumes "exec X a st = Inr st'"
  shows "frames_to_process (fst st') = frames_to_process (fst st)
       \<and> frames_recorded (fst st) \<le> frames_recorded (fst st')
       \<and> frames_processed (fst st) \<le> frames_processed (fst st')"
proof (cases "\<exists>i. a = Thread i")
  case True
  then obtain i where a: "a = Thread i" by blast
  with assms obtain s1 where "CompareFrames_step X i (fst st) = Inr s1" "st' = (s1, snd st)"
    by (auto split: sum.splits)
  with CompareFrames_step_mono [of X i "fst st" s1] show ?thesis by simp
next
  case False
  then have "\<And>i. a \<noteq> Thread i" by blast
  from comparison_side_counters [OF exec_callback_side [OF assms this]] show ?thesis
    by simp
qed

lemma trace_mono:
  "s \<in> set (trace X acts st) \<Longrightarrow>
     frames_to_process s = frames_to_process (fst st)
   \<and> frames_recorded (fst st) \<le> frames_recorded s
   \<and> frames_processed (fst st) \<le> frames_processed s"
proof (induction acts arbitrary: st)
  case Nil
  then show ?case by simp
next
  case (Cons a acts)
  show ?case
  proof (cases "exec X a st")
    case (Inl e)
    with Cons.prems show ?thesis by simp
  next
    case (Inr st1)
    with Cons.prems have "s = fst st \<or> s \<in> set (trace X acts st1)" by simp
    then show ?thesis
    proof
      assume "s = fst st"
      then show ?thesis by simp
    next
      assume "s \<in> set (trace X acts st1)"
      from Cons.IH [OF this] exec_mono [OF Inr] show ?thesis by simp
    qed
  qed
qed

lemma trace_sorted:
  "sorted (map frames_recorded (trace X acts st))
   \<and> sorted (map frames_processed (trace X acts st))"
proof (induction acts arbitrary: st)
  case Nil
  show ?case by simp
next
  case (Cons a acts)
  show ?case
  proof (cases "exec X a st")
    case (Inl e)
    then show ?thesis by simp
  next
    case (Inr st1)
    have "frames_recorded (fst st) \<le> frames_recorded s
        \<and> frames_processed (fst st) \<le> frames_processed s"
      if "s \<in> set (trace X acts st1)" for s
      using trace_mono [OF that] exec_mono [OF Inr] by simp
    with Cons.IH [of st1] Inr show ?thesis by simp
  qed
qed

lemma times_reached_sorted:
  "sorted xs \<Longrightarrow> \<forall>x \<in> set xs. x \<le> N \<Longrightarrow> xs \<noteq> [] \<Longrightarrow>
     times_reached N xs = (if hd xs \<noteq> N \<and> last xs = N then 1 else 0)"
proof (induction N xs rule: times_reached.induct)
  case (1 n a b xs)
  from "1.prems" have ab: "a \<le> b" and bn: "b \<le> n" and an: "a \<le> n"
    and srt: "sorted (b # xs)" and bnd: "\<forall>x \<in> set (b # xs). x \<le> n"
    by simp_all
  from "1.IH" [OF srt bnd] have ih:
    "times_reached n (b # xs) = (if b \<noteq> n \<and> last (b # xs) = n then 1 else 0)"
    by simp
  show ?case
  proof (cases "b = n")
    case True
    have "last (b # xs) = n"
    proof -
      have "last (b # xs) \<in> set (b # xs)" by (rule last_in_set) simp
      with srt bnd True show ?thesis by (cases "xs = []") (auto simp: antisym)
    qed
    with True ih show ?thesis by simp
  next
    case False
    with ab bn have "a \<noteq> n" by simp
    with False ih show ?thesis by simp
  qed
qed simp_all

subsection \<open>The counters and the done event\<close>

lemma count_pc_witness:
  assumes "1 \<le> count_pc P s"
  shows "\<exists>pc \<in> set (comparison_thread_pool s). P pc"
proof -
  from assms have "filter P (comparison_thread_pool s) \<noteq> []"
    by (auto simp: count_pc_def)
  then obtain pc where "pc \<in> set (filter P (comparison_thread_pool s))"
    by (cases "filter P (comparison_thread_pool s)") auto
  then show ?thesis by auto
qed

lemma pool_inv_counters:
  assumes "pool_inv N s"
  shows "frames_recorded s \<le> N" and "frames_processed s \<le> frames_recorded s"
    and "0 \<le> frames_processed s"
  using assms count_pc_nonneg [of in_flight s] by (simp_all add: pool_inv_def)

lemma pool_inv_done:
  assumes "pool_inv N s"
  shows "done_event s \<longrightarrow> frames_processed s = N"
    and "frames_processed s = N \<and> 0 < N \<longrightarrow>
           done_event s \<or> AtPrintResults \<in> set (comparison_thread_pool s)"
    and "results_printed s \<le> 1"
proof -
  let ?k = "count_pc (\<lambda>pc. pc = AtPrintResults) s"
  from assms have sum: "?k + int (results_printed s)
      = (if frames_processed s = N \<and> 0 < N then 1 else 0)"
    and dn: "done_event s = (results_printed s = 1)"
    by (simp_all add: pool_inv_def)
  have k: "0 \<le> ?k" by (rule count_pc_nonneg)
  show "done_event s \<longrightarrow> frames_processed s = N"
    using sum dn k by (auto split: if_splits)
  show "results_printed s \<le> 1"
    using sum k by (auto split: if_splits)
  show "frames_processed s = N \<and> 0 < N \<longrightarrow>
           done_event s \<or> AtPrintResults \<in> set (comparison_thread_pool s)"
  proof (intro impI)
    assume a: "frames_processed s = N \<and> 0 < N"
    show "done_event s \<or> AtPrintResults \<in> set (comparison_thread_pool s)"
    proof (cases "results_printed s = 1")
      case True
      with dn show ?thesis by simp
    next
      case False
      with sum a k have "1 \<le> ?k" by (auto split: if_splits)
      from count_pc_witness [OF this] show ?thesis by auto
    qed
  qed
qed

lemma trace_times_reached:
  assumes "pool_inv N (fst st)"
  shows "times_reached N (map frames_recorded (trace X acts st)) =
           (if frames_recorded (fst st) \<noteq> N \<and> frames_recorded (last (trace X acts st)) = N
            then 1 else 0)"
    and "times_reached N (map frames_processed (trace X acts st)) =
           (if frames_processed (fst st) \<noteq> N \<and> frames_processed (last (trace X acts st)) = N
            then 1 else 0)"
proof -
  let ?tr = "trace X acts st"
  have ne: "?tr \<noteq> []" by (rule trace_nonempty)
  have bound: "frames_recorded s \<le> N \<and> frames_processed s \<le> N" if "s \<in> set ?tr" for s
    using pool_inv_counters [OF trace_inv [OF assms that]] by simp
  have r: "times_reached N (map frames_recorded ?tr) =
      (if hd (map frames_recorded ?tr) \<noteq> N \<and> last (map frames_recorded ?tr) = N then 1 else 0)"
    using trace_sorted [of X acts st] bound ne by (intro times_reached_sorted) auto
  have p: "times_reached N (map frames_processed ?tr) =
      (if hd (map frames_processed ?tr) \<noteq> N \<and> last (map frames_processed ?tr) = N then 1 else 0)"
    using trace_sorted [of X acts st] bound ne by (intro times_reached_sorted) auto
  show "times_reached N (map frames_recorded ?tr) =
           (if frames_recorded (fst st) \<noteq> N \<and> frames_recorded (last ?tr) = N then 1 else 0)"
    using r ne by (simp add: hd_map last_map hd_trace)
  show "times_reached N (map frames_processed ?tr) =
           (if frames_processed (fst st) \<noteq> N \<and> frames_processed (last ?tr) = N then 1 else 0)"
    using p ne by (simp add: hd_map last_map hd_trace)
qed

text \<open>
  C4. Take a budget \<open>N\<close> of at least no frames and any run of the callbacks and the
  comparison threads from the constructed analyzer. In every state of the run
  \<^verbatim>\<open>frames_recorded_\<close> is at most \<open>N\<close> and \<^verbatim>\<open>frames_processed_\<close> is at most
  \<^verbatim>\<open>frames_recorded_\<close>. Over the whole run each of the two counters arrives at \<open>N\<close> at
  most once, and exactly once when \<open>N\<close> is positive and the run ends with the counter at
  \<open>N\<close>. The done event is set only when \<^verbatim>\<open>frames_processed_\<close> is \<open>N\<close>; once the counter
  has become \<open>N\<close> the event is set or the thread that counted the last frame is about to
  print the results, and its next step sets the event; the results are printed at most
  once. No step of a thread fails an assertion.
\<close>

theorem counters_reach_budget_once:
  assumes "0 \<le> N" and "s \<in> set (trace X acts (VideoAnalyzer_init N cores, w))"
  shows "frames_recorded s \<le> N \<and> frames_processed s \<le> frames_recorded s
    \<and> times_reached N (map frames_recorded (trace X acts (VideoAnalyzer_init N cores, w))) \<le> 1
    \<and> times_reached N (map frames_processed (trace X acts (VideoAnalyzer_init N cores, w))) \<le> 1
    \<and> (0 < N \<and> frames_recorded (last (trace X acts (VideoAnalyzer_init N cores, w))) = N
         \<longrightarrow> times_reached N
               (map frames_recorded (trace X acts (VideoAnalyzer_init N cores, w))) = 1)
    \<and> (0 < N \<and> frames_processed (last (trace X acts (VideoAnalyzer_init N cores, w))) = N
         \<longrightarrow> times_reached N
               (map frames_processed (trace X acts (VideoAnalyzer_init N cores, w))) = 1)
    \<and> (done_event s \<longrightarrow> frames_processed s = N)
    \<and> (frames_processed s = N \<and> 0 < N
         \<longrightarrow> done_event s \<or> AtPrintResults \<in> set (comparison_thread_pool s))
    \<and> (\<forall>i < length (comparison_thread_pool s). comparison_thread_pool s ! i = AtPrintResults
         \<longrightarrow> (\<exists>s'. CompareFrames_step X i s = Inr s' \<and> done_event s'))
    \<and> results_printed s \<le> 1
    \<and> (\<forall>i. \<exists>s'. CompareFrames_step X i s = Inr s')"
proof -
  let ?st = "(VideoAnalyzer_init N cores, w)"
  have init: "pool_inv N (fst ?st)"
    using assms(1) by (simp add: pool_inv_init)
  have inv: "pool_inv N s"
    by (rule trace_inv [OF init assms(2)])
  have zero: "frames_recorded (fst ?st) = 0" "frames_processed (fst ?st) = 0"
    by (simp_all add: VideoAnalyzer_init_def)
  note tr = trace_times_reached [OF init, of X acts]
  have a: "times_reached N (map frames_recorded (trace X acts ?st)) \<le> 1"
    "times_reached N (map frames_processed (trace X acts ?st)) \<le> 1"
    unfolding tr by simp_all
  have b: "0 < N \<and> frames_recorded (last (trace X acts ?st)) = N
         \<longrightarrow> times_reached N (map frames_recorded (trace X acts ?st)) = 1"
    "0 < N \<and> frames_processed (last (trace X acts ?st)) = N
         \<longrightarrow> times_reached N (map frames_processed (trace X acts ?st)) = 1"
    unfolding tr zero by auto
  have c: "\<forall>i < length (comparison_thread_pool s). comparison_thread_pool s ! i = AtPrintResults
         \<longrightarrow> (\<exists>s'. CompareFrames_step X i s = Inr s' \<and> done_event s')"
    using step_AtPrintResults [OF inv] by blast
  have d: "\<forall>i. \<exists>s'. CompareFrames_step X i s = Inr s'"
    using CompareFrames_step_inv [OF inv] by blast
  from pool_inv_counters [OF inv] pool_inv_done [OF inv] a b c d show ?thesis
    by blast
qed

lemma two_frame_run_trace:
  "map frames_processed (trace loopback two_frame_run (VideoAnalyzer_init 2 1, wire0))
     = [0, 0, 0, 0, 0, 0, 0, 1, 1, 1, 1, 2, 2]"
  "map done_event (trace loopback two_frame_run (VideoAnalyzer_init 2 1, wire0))
     = [False, False, False, False, False, False, False, False, False, False, False, False, True]"
  by (simp_all add: two_frame_run_def IncomingCapturedFrame_def RenderFrame_def
      RenderFrame_loop.simps
      VideoAnalyzer_init_def loopback_def wire0_def raw_frame_def decoded_frame_def
      Let_def set_timestamp_def IsZeroSize_def num_comparison_threads_def kMinCoresLeft_def
      ZeroFrame_def AddFrameComparison_def CompareFrames_step_def AllFramesRecorded_def
      PopComparison_def FrameRecorded_def FrameProcessed_def PrintResults_def
      PerformFrameComparison_def set_pc_def AddSample_def)

theorem counters_reach_budget_once_witness:
  "times_reached 2
     (map frames_processed (trace loopback two_frame_run (VideoAnalyzer_init 2 1, wire0))) = 1
   \<and> frames_processed (last (trace loopback two_frame_run (VideoAnalyzer_init 2 1, wire0))) = 2
   \<and> frames_recorded (last (trace loopback two_frame_run (VideoAnalyzer_init 2 1, wire0))) \<le> 2
   \<and> done_event (last (trace loopback two_frame_run (VideoAnalyzer_init 2 1, wire0)))"
proof -
  let ?tr = "trace loopback two_frame_run (VideoAnalyzer_init 2 1 :: int VideoAnalyzer, wire0)"
  have ne: "?tr \<noteq> []" by (rule trace_nonempty)
  then have mem: "last ?tr \<in> set ?tr" by simp
  have "frames_processed (last ?tr) = last (map frames_processed ?tr)"
    using ne by (simp add: last_map)
  then have fp: "frames_processed (last ?tr) = 2"
    by (simp add: two_frame_run_trace)
  have "done_event (last ?tr) = last (map done_event ?tr)"
    using ne by (simp add: last_map)
  then have dn: "done_event (last ?tr)"
    by (simp add: two_frame_run_trace)
  have "(0 :: int) \<le> 2" by simp
  from counters_reach_budget_once [OF this mem] fp dn show ?thesis by simp
qed

subsection \<open>Dropped and compared frames at the end of a run\<close>

lemma run_mono:
  "run X acts st = Inr st' \<Longrightarrow>
     frames_to_process (fst st') = frames_to_process (fst st)
   \<and> frames_processed (fst st) \<le> frames_processed (fst st')"
  using trace_mono [of "fst st'" X acts st] run_last_trace [of X acts st st']
    trace_nonempty [of X acts st] last_in_set [of "trace X acts st"]
  by auto

lemma pool_inv_finished:
  assumes "pool_inv N s" and "frames_processed s = N"
  shows "int (length (psnr s)) = N" and "dropped_frames s + int (length (sender_time s)) = N"
proof -
  from assms have "count_pc in_flight s = 0"
    using count_pc_nonneg [of in_flight s] by (simp add: pool_inv_def)
  moreover have "count_pc (\<lambda>pc. pc = AtFrameProcessed) s \<le> count_pc in_flight s"
    by (rule count_pc_mono) (simp add: in_flight_def)
  ultimately have "count_pc (\<lambda>pc. pc = AtFrameProcessed) s = 0"
    using count_pc_nonneg [of "\<lambda>pc. pc = AtFrameProcessed" s] by simp
  with assms show "int (length (psnr s)) = N"
    and "dropped_frames s + int (length (sender_time s)) = N"
    by (simp_all add: pool_inv_def)
qed

text \<open>
  C6. When a run ends with \<^verbatim>\<open>frames_processed_\<close> equal to \<^verbatim>\<open>frames_to_process_\<close>, the
  dropped frames and the comparisons that were not dropped (each left one sample in
  \<^verbatim>\<open>sender_time_\<close>) add up to \<^verbatim>\<open>frames_to_process_\<close>, and so does the number of PSNR
  samples. Every comparison that is performed adds one PSNR sample and either counts one
  dropped frame or adds one timing sample, never both.
\<close>

theorem tallies_add_up_at_the_end:
  assumes "run X acts (VideoAnalyzer_init N cores, w) = Inr (s, w')"
    and "frames_processed s = frames_to_process s"
  shows "dropped_frames s + int (length (sender_time s)) = frames_to_process s
       \<and> int (length (psnr s)) = frames_to_process s
       \<and> (\<forall>c s0. dropped_frames (PerformFrameComparison X c s0) =
                    (if dropped c then dropped_frames s0 + 1 else dropped_frames s0)
                \<and> length (sender_time (PerformFrameComparison X c s0)) =
                    (if dropped c then length (sender_time s0)
                     else length (sender_time s0) + 1)
                \<and> length (psnr (PerformFrameComparison X c s0)) = length (psnr s0) + 1)"
proof -
  from run_mono [OF assms(1)] have N: "frames_to_process s = N" and "0 \<le> frames_processed s"
    by (simp_all add: VideoAnalyzer_init_def)
  with assms(2) have "0 \<le> N" by simp
  then have "pool_inv N (fst (VideoAnalyzer_init N cores :: 'a VideoAnalyzer, w))"
    by (simp add: pool_inv_init)
  from run_inv [OF this assms(1)] have inv: "pool_inv N s" by simp
  from pool_inv_finished [OF inv] assms(2) N
  have "dropped_frames s + int (length (sender_time s)) = frames_to_process s"
    "int (length (psnr s)) = frames_to_process s"
    by simp_all
  then show ?thesis
    by (simp add: PerformFrameComparison_samples)
qed

theorem tallies_add_up_at_the_end_witness:
  "map_sum id (frames_processed \<circ> fst)
     (run loopback two_frame_run (VideoAnalyzer_init 2 1, wire0)) = Inr 2
   \<and> map_sum id (dropped_frames \<circ> fst)
     (run loopback two_frame_run (VideoAnalyzer_init 2 1, wire0)) = Inr 1
   \<and> map_sum id (length \<circ> sender_time \<circ> fst)
     (run loopback two_frame_run (VideoAnalyzer_init 2 1, wire0)) = Inr 1"
proof -
  obtain s w' where r: "run loopback two_frame_run (VideoAnalyzer_init 2 1, wire0) = Inr (s, w')"
    and fp: "frames_processed s = 2" and n: "frames_to_process s = 2"
    and d: "dropped_frames s = 1"
    by (simp add: two_frame_run_def IncomingCapturedFrame_def RenderFrame_def
      RenderFrame_loop.simps
      VideoAnalyzer_init_def loopback_def wire0_def raw_frame_def decoded_frame_def
      Let_def set_timestamp_def IsZeroSize_def num_comparison_threads_def kMinCoresLeft_def
      ZeroFrame_def AddFrameComparison_def CompareFrames_step_def AllFramesRecorded_def
      PopComparison_def FrameRecorded_def FrameProcessed_def PrintResults_def
      PerformFrameComparison_def set_pc_def AddSample_def)
  from tallies_add_up_at_the_end [OF r] fp n
  have "dropped_frames s + int (length (sender_time s)) = 2" by simp
  with d have "length (sender_time s) = 1" by simp
  with r fp d show ?thesis by simp
qed

subsection \<open>The offset between the two RTP clocks\<close>

text \<open>
  What the send tap, the receive tap and the capture tap do to the delta, to the first
  frame kept for it and to the two maps of times. A delta other than 0 is never changed,
  and the key of every entry is the timestamp of the packet minus the delta.
\<close>

lemma SendRtp_delta:
  "rtp_timestamp_delta (fst (snd (SendRtp X pkt now (s, w)))) =
     (if rtp_timestamp_delta s = 0 then Parse X pkt - timestamp (first_send_frame s)
      else rtp_timestamp_delta s)"
  by (simp add: SendRtp_def Let_def split: prod.splits)

lemma SendRtp_first_send_frame:
  "first_send_frame (fst (snd (SendRtp X pkt now (s, w)))) =
     (if rtp_timestamp_delta s = 0 then ZeroFrame else first_send_frame s)"
  by (simp add: SendRtp_def Let_def Reset_def split: prod.splits)

lemma SendRtp_send_times:
  "send_times (fst (snd (SendRtp X pkt now (s, w)))) =
     (send_times s)
       (Parse X pkt - rtp_timestamp_delta (fst (snd (SendRtp X pkt now (s, w)))) \<mapsto> now)"
  by (simp add: SendRtp_def Let_def split: prod.splits)

lemma DeliverPacket_recv_times:
  "recv_times (fst (snd (DeliverPacket X m pkt now (s, w)))) =
     (recv_times s)(Parse X pkt - rtp_timestamp_delta s \<mapsto> now)
   \<and> rtp_timestamp_delta (fst (snd (DeliverPacket X m pkt now (s, w)))) = rtp_timestamp_delta s"
  by (simp add: DeliverPacket_def Let_def split: prod.splits)

lemma IncomingCapturedFrame_first_send_frame:
  "first_send_frame (fst (IncomingCapturedFrame X f (s, w))) =
     (if IsZeroSize (first_send_frame s) \<and> rtp_timestamp_delta s = 0
      then set_timestamp (ntp_time_ms f * 90) f else first_send_frame s)
   \<and> rtp_timestamp_delta (fst (IncomingCapturedFrame X f (s, w))) = rtp_timestamp_delta s"
  by (simp add: IncomingCapturedFrame_def Let_def)

text \<open>
  C2. The claim is that the delta is computed once, on the first RTP packet, and never
  again. The code tells "not yet computed" from "computed" by comparing the delta
  with 0, so a first packet that carries the very timestamp of the first captured frame
  leaves the analyzer as if nothing had been computed. A frame is captured at millisecond
  1 (timestamp 90) and its first packet, with timestamp 90, gives the delta 0 and clears
  the frame kept for it. A second packet of the same frame computes the delta again, from
  the cleared frame, as 90; the frame is then rendered with timestamp 90, looked up as 0,
  and \<^verbatim>\<open>RenderFrame\<close> ends in the failed assertion. When a second frame is captured
  before that second packet, the capture tap keeps it as the first frame, the delta is
  computed as 90 - 180, and the rendered first frame is paired with the second captured
  frame while the first is counted as dropped.
\<close>

theorem SendRtp_recomputes_zero_delta:
  "map_sum id (rtp_timestamp_delta \<circ> fst)
     (run loopback [Captured (raw_frame 1), SentRtp (rtp_packet 90) 10]
        (VideoAnalyzer_init 2 1, wire0)) = Inr 0
   \<and> map_sum id (IsZeroSize \<circ> first_send_frame \<circ> fst)
     (run loopback [Captured (raw_frame 1), SentRtp (rtp_packet 90) 10]
        (VideoAnalyzer_init 2 1, wire0)) = Inr True
   \<and> map_sum id (rtp_timestamp_delta \<circ> fst)
     (run loopback [Captured (raw_frame 1), SentRtp (rtp_packet 90) 10,
                    SentRtp (rtp_packet 90) 11]
        (VideoAnalyzer_init 2 1, wire0)) = Inr 90
   \<and> run loopback [Captured (raw_frame 1), SentRtp (rtp_packet 90) 10,
                   SentRtp (rtp_packet 90) 11, Rendered (decoded_frame 1 0) 0 20]
        (VideoAnalyzer_init 2 1, wire0) = Inl AssertFailed
   \<and> map_sum id (rtp_timestamp_delta \<circ> fst)
     (run loopback [Captured (raw_frame 1), SentRtp (rtp_packet 90) 10,
                    Captured (raw_frame 2), SentRtp (rtp_packet 90) 11]
        (VideoAnalyzer_init 2 1, wire0)) = Inr (90 - 180)
   \<and> map_sum id (map timestamp \<circ> map reference \<circ> comparisons \<circ> fst)
     (run loopback [Captured (raw_frame 1), SentRtp (rtp_packet 90) 10,
                    Captured (raw_frame 2), SentRtp (rtp_packet 90) 11,
                    Rendered (decoded_frame 1 0) 0 20]
        (VideoAnalyzer_init 2 1, wire0)) = Inr [90, 180]
   \<and> map_sum id (map dropped \<circ> comparisons \<circ> fst)
     (run loopback [Captured (raw_frame 1), SentRtp (rtp_packet 90) 10,
                    Captured (raw_frame 2), SentRtp (rtp_packet 90) 11,
                    Rendered (decoded_frame 1 0) 0 20]
        (VideoAnalyzer_init 2 1, wire0)) = Inr [True, False]"
  by (simp add: IncomingCapturedFrame_def SendRtp_def RenderFrame_def RenderFrame_loop.simps
      VideoAnalyzer_init_def loopback_def wire0_def raw_frame_def decoded_frame_def
      header_timestamp_of_def rtp_packet_def Let_def set_timestamp_def IsZeroSize_def
      ZeroFrame_def Reset_def AddFrameComparison_def)

subsection \<open>Times that were never recorded\<close>

text \<open>
  C3, as stated, fails: a frame is captured and rendered while no packet was seen by the
  send tap or the receive tap, so neither map has an entry for it. The comparison is
  enqueued with both times 0, and the thread that consumes it adds a sample to each of
  \<^verbatim>\<open>sender_time_\<close> and \<^verbatim>\<open>receiver_time_\<close>, next to the PSNR sample.
\<close>

theorem absent_times_are_sampled:
  "map_sum id (comparisons \<circ> fst)
     (run loopback [Captured (raw_frame 1), Rendered (decoded_frame 1 0) 0 20]
        (VideoAnalyzer_init 1 1, wire0))
     = Inr [\<lparr>reference = \<lparr>video_frame_buffer = Some [1], timestamp = 90, ntp_time_ms = 1\<rparr>,
             render = decoded_frame 1 0, dropped = False,
             send_time_ms = 0, recv_time_ms = 0, render_time_ms = 20\<rparr>]
   \<and> map_sum id (sender_time \<circ> fst)
     (run loopback [Captured (raw_frame 1), Rendered (decoded_frame 1 0) 0 20,
                    Thread 0, Thread 0, Thread 0]
        (VideoAnalyzer_init 1 1, wire0)) = Inr [- 1]
   \<and> map_sum id (receiver_time \<circ> fst)
     (run loopback [Captured (raw_frame 1), Rendered (decoded_frame 1 0) 0 20,
                    Thread 0, Thread 0, Thread 0]
        (VideoAnalyzer_init 1 1, wire0)) = Inr [20]
   \<and> map_sum id (psnr \<circ> fst)
     (run loopback [Captured (raw_frame 1), Rendered (decoded_frame 1 0) 0 20,
                    Thread 0, Thread 0, Thread 0]
        (VideoAnalyzer_init 1 1, wire0)) = Inr [48]"
  by (simp add: IncomingCapturedFrame_def RenderFrame_def RenderFrame_loop.simps
      VideoAnalyzer_init_def loopback_def wire0_def raw_frame_def decoded_frame_def
      Let_def set_timestamp_def IsZeroSize_def num_comparison_threads_def kMinCoresLeft_def
      ZeroFrame_def AddFrameComparison_def CompareFrames_step_def AllFramesRecorded_def
      PopComparison_def FrameRecorded_def PerformFrameComparison_def set_pc_def AddSample_def)

text \<open>
  C3, amended. A comparison enqueued for a reference frame without an entry in
  \<^verbatim>\<open>send_times_\<close> or \<^verbatim>\<open>recv_times_\<close> carries 0 for the missing time. Consuming a
  comparison always adds its PSNR and SSIM samples; it adds the \<^verbatim>\<open>sender_time_\<close> and
  \<^verbatim>\<open>receiver_time_\<close> samples unless the comparison is marked dropped, whatever the maps
  held.
\<close>

theorem timing_samples_follow_the_dropped_flag:
  "last (comparisons (AddFrameComparison f g d t s)) =
     \<lparr>reference = f, render = g, dropped = d,
      send_time_ms = (case send_times s (timestamp f) of None \<Rightarrow> 0 | Some v \<Rightarrow> v),
      recv_time_ms = (case recv_times s (timestamp f) of None \<Rightarrow> 0 | Some v \<Rightarrow> v),
      render_time_ms = t\<rparr>
   \<and> psnr (PerformFrameComparison X c s') = psnr s' @ [I420PSNR X (reference c) (render c)]
   \<and> ssim (PerformFrameComparison X c s') = ssim s' @ [I420SSIM X (reference c) (render c)]
   \<and> sender_time (PerformFrameComparison X c s') =
       (if dropped c then sender_time s'
        else sender_time s' @ [send_time_ms c - ntp_time_ms (reference c)])
   \<and> receiver_time (PerformFrameComparison X c s') =
       (if dropped c then receiver_time s'
        else receiver_time s' @ [render_time_ms c - recv_time_ms c])"
  by (simp add: AddFrameComparison_enqueues PerformFrameComparison_samples)

subsection \<open>Comparisons left in the queue\<close>

text \<open>
  C7, as stated, fails: with a budget of one frame and two threads, two comparisons are
  enqueued and the first thread pops one, so that all frames are recorded while one
  comparison is still queued. The second thread then enters \<^verbatim>\<open>CompareFrames\<close>, stops,
  and the comparison stays in the queue.
\<close>

theorem thread_leaves_queued_comparison:
  "map_sum id (frames_recorded \<circ> fst)
     (run loopback
        [Captured (raw_frame 1), Captured (raw_frame 2),
         Rendered (decoded_frame 1 0) 0 20, Rendered (decoded_frame 2 0) 0 21,
         Thread 0, Thread 0]
        (VideoAnalyzer_init 1 6, wire0)) = Inr 1
   \<and> map_sum id (length \<circ> comparisons \<circ> fst)
     (run loopback
        [Captured (raw_frame 1), Captured (raw_frame 2),
         Rendered (decoded_frame 1 0) 0 20, Rendered (decoded_frame 2 0) 0 21,
         Thread 0, Thread 0]
        (VideoAnalyzer_init 1 6, wire0)) = Inr 1
   \<and> map_sum id (last \<circ> comparison_thread_pool \<circ> fst)
     (run loopback
        [Captured (raw_frame 1), Captured (raw_frame 2),
         Rendered (decoded_frame 1 0) 0 20, Rendered (decoded_frame 2 0) 0 21,
         Thread 0, Thread 0]
        (VideoAnalyzer_init 1 6, wire0)) = Inr AtStart
   \<and> map_sum id (last \<circ> comparison_thread_pool \<circ> fst)
     (run loopback
        [Captured (raw_frame 1), Captured (raw_frame 2),
         Rendered (decoded_frame 1 0) 0 20, Rendered (decoded_frame 2 0) 0 21,
         Thread 0, Thread 0, Thread 1]
        (VideoAnalyzer_init 1 6, wire0)) = Inr Stopped
   \<and> map_sum id (length \<circ> comparisons \<circ> fst)
     (run loopback
        [Captured (raw_frame 1), Captured (raw_frame 2),
         Rendered (decoded_frame 1 0) 0 20, Rendered (decoded_frame 2 0) 0 21,
         Thread 0, Thread 0, Thread 1]
        (VideoAnalyzer_init 1 6, wire0)) = Inr 1"
proof -
  have two: "replicate 2 AtStart = [AtStart, AtStart]"
    by (simp add: numeral_2_eq_2)
  show ?thesis
    by (simp add: IncomingCapturedFrame_def RenderFrame_def RenderFrame_loop.simps
      VideoAnalyzer_init_def loopback_def wire0_def raw_frame_def decoded_frame_def
      Let_def set_timestamp_def IsZeroSize_def num_comparison_threads_def kMinCoresLeft_def
      kMaxComparisonThreads_def two
      ZeroFrame_def AddFrameComparison_def CompareFrames_step_def AllFramesRecorded_def
      PopComparison_def FrameRecorded_def PerformFrameComparison_def set_pc_def AddSample_def)
qed

text \<open>
  C7, amended. A thread that finds \<^verbatim>\<open>frames_recorded_\<close> equal to \<^verbatim>\<open>frames_to_process_\<close>
  pops nothing, whatever the queue holds: at the start of \<^verbatim>\<open>CompareFrames\<close> and after
  its wait it stops, and \<^verbatim>\<open>PopComparison\<close> returns false. A thread pops the front of a
  queue that is not empty only while \<^verbatim>\<open>frames_recorded_\<close> is below
  \<^verbatim>\<open>frames_to_process_\<close>, and counts it as recorded.
\<close>

theorem thread_stops_when_all_frames_recorded:
  assumes "i < length (comparison_thread_pool s)"
  shows "(frames_recorded s = frames_to_process s \<and> comparison_thread_pool s ! i = AtStart
            \<longrightarrow> CompareFrames_step X i s = Inr (set_pc i Stopped s))
       \<and> (frames_recorded s = frames_to_process s
            \<and> comparison_thread_pool s ! i = AtPopComparison
            \<longrightarrow> CompareFrames_step X i s = Inr (set_pc i AtEventWait s))
       \<and> (frames_recorded s = frames_to_process s \<and> comparison_thread_pool s ! i = AtEventWait
            \<longrightarrow> CompareFrames_step X i s =
                  Inr (set_pc i Stopped (s\<lparr>comparison_available_event := True\<rparr>)))
       \<and> (\<forall>c cs. frames_recorded s < frames_to_process s
            \<and> comparison_thread_pool s ! i = AtPopComparison \<and> comparisons s = c # cs
            \<longrightarrow> CompareFrames_step X i s =
                  Inr (set_pc i (AtPerform c)
                         (s\<lparr>comparisons := cs, frames_recorded := frames_recorded s + 1\<rparr>)))"
  using assms
  by (auto simp: CompareFrames_step_def AllFramesRecorded_def PopComparison_def
      FrameRecorded_def Let_def split: list.splits)

theorem thread_stops_when_all_frames_recorded_witness:
  "\<exists>s w. run loopback
        [Captured (raw_frame 1), Captured (raw_frame 2),
         Rendered (decoded_frame 1 0) 0 20, Rendered (decoded_frame 2 0) 0 21,
         Thread 0, Thread 0]
        (VideoAnalyzer_init 1 6, wire0) = Inr (s, w)
     \<and> frames_recorded s = frames_to_process s
     \<and> length (comparisons s) = 1
     \<and> comparison_thread_pool s ! 1 = AtStart
     \<and> CompareFrames_step loopback 1 s = Inr (set_pc 1 Stopped s)"
proof -
  obtain s w where r: "run loopback
        [Captured (raw_frame 1), Captured (raw_frame 2),
         Rendered (decoded_frame 1 0) 0 20, Rendered (decoded_frame 2 0) 0 21,
         Thread 0, Thread 0]
        (VideoAnalyzer_init 1 6, wire0) = Inr (s, w)"
    and all: "frames_recorded s = frames_to_process s"
    and q: "length (comparisons s) = 1"
    and i: "1 < length (comparison_thread_pool s)"
    and pc: "comparison_thread_pool s ! 1 = AtStart"
    by (simp add: IncomingCapturedFrame_def RenderFrame_def RenderFrame_loop.simps
      VideoAnalyzer_init_def loopback_def wire0_def raw_frame_def decoded_frame_def
      Let_def set_timestamp_def IsZeroSize_def num_comparison_threads_def kMinCoresLeft_def
      kMaxComparisonThreads_def
      ZeroFrame_def AddFrameComparison_def CompareFrames_step_def AllFramesRecorded_def
      PopComparison_def FrameRecorded_def PerformFrameComparison_def set_pc_def AddSample_def)
  from thread_stops_when_all_frames_recorded [OF i, of loopback] all pc
  have "CompareFrames_step loopback 1 s = Inr (set_pc 1 Stopped s)" by blast
  with r all q pc show ?thesis by blast
qed

subsection \<open>A budget of no frames\<close>

lemma idle_cong:
  assumes "comparison_side s' = comparison_side s"
    and "encoded_frame_size s' = encoded_frame_size s"
  shows "idle s' = idle s"
  using assms by (simp add: comparison_side_def idle_def)

lemma idle_init: "idle (VideoAnalyzer_init 0 cores)"
  by (auto simp: idle_def VideoAnalyzer_init_def)

lemma idle_step:
  assumes "idle s"
  shows "\<exists>s'. CompareFrames_step X i s = Inr s' \<and> idle s'
           \<and> (i < length (comparison_thread_pool s) \<and> comparison_thread_pool s ! i = AtStart
                \<longrightarrow> s' = set_pc i Stopped s)"
proof (cases "i < length (comparison_thread_pool s)")
  case False
  with assms show ?thesis by (simp add: CompareFrames_step_def)
next
  case True
  then have "comparison_thread_pool s ! i \<in> set (comparison_thread_pool s)"
    by (rule nth_mem)
  with assms have "comparison_thread_pool s ! i \<in> {AtStart, Stopped}"
    unfolding idle_def by blast
  then show ?thesis
  proof
    assume pc: "comparison_thread_pool s ! i = AtStart"
    have step: "CompareFrames_step X i s = Inr (set_pc i Stopped s)"
      using assms True pc by (simp add: CompareFrames_step_def AllFramesRecorded_def idle_def)
    have "set ((comparison_thread_pool s)[i := Stopped])
            \<subseteq> insert Stopped (set (comparison_thread_pool s))"
      by (rule set_update_subset_insert)
    with assms have "idle (set_pc i Stopped s)"
      by (auto simp: idle_def set_pc_def)
    with step show ?thesis by simp
  next
    assume "comparison_thread_pool s ! i \<in> {Stopped}"
    with assms True show ?thesis by (simp add: CompareFrames_step_def)
  qed
qed

lemma idle_exec:
  assumes "idle (fst st)" and "exec X a st = Inr st'"
  shows "idle (fst st')"
proof (cases a)
  case (Captured f)
  with assms(2) have "st' = IncomingCapturedFrame X f st" by simp
  with assms(1) idle_cong [of "fst st'" "fst st"] show ?thesis
    by (simp add: comparison_side_callbacks encoded_frame_size_callbacks)
next
  case (SentRtp pkt now)
  with assms(2) have "st' = snd (SendRtp X pkt now st)" by simp
  with assms(1) idle_cong [of "fst st'" "fst st"] show ?thesis
    by (simp add: comparison_side_callbacks encoded_frame_size_callbacks)
next
  case (SentRtcp pkt)
  with assms(2) have "st' = snd (SendRtcp X pkt st)" by simp
  with assms(1) idle_cong [of "fst st'" "fst st"] show ?thesis
    by (simp add: comparison_side_callbacks encoded_frame_size_callbacks)
next
  case (Delivered m pkt now)
  with assms(2) have "st' = snd (DeliverPacket X m pkt now st)" by simp
  with assms(1) idle_cong [of "fst st'" "fst st"] show ?thesis
    by (simp add: comparison_side_callbacks encoded_frame_size_callbacks)
next
  case (Encoded n)
  with assms(2) have "st' = (EncodedFrameCallback n (fst st), snd st)" by simp
  moreover have "EncodedFrameCallback n (fst st) = fst st"
    using assms(1) by (simp add: EncodedFrameCallback_def idle_def)
  ultimately show ?thesis using assms(1) by simp
next
  case (Rendered f t now)
  with assms(2) obtain s1 where r: "RenderFrame f t now (fst st) = Inr s1"
    and st': "st' = (s1, snd st)"
    by (auto split: sum.splits)
  from comparison_side_RenderFrame [OF r] assms(1) idle_cong [of s1 "fst st"] st'
  show ?thesis by simp
next
  case (Thread i)
  from idle_step [OF assms(1), of X i] obtain s1 where
    "CompareFrames_step X i (fst st) = Inr s1" "idle s1" by blast
  with assms(2) Thread show ?thesis by auto
qed

lemma idle_trace:
  "idle (fst st) \<Longrightarrow> s \<in> set (trace X acts st) \<Longrightarrow> idle s"
proof (induction acts arbitrary: st)
  case Nil
  then show ?case by simp
next
  case (Cons a acts)
  show ?case
  proof (cases "exec X a st")
    case (Inl e)
    with Cons.prems show ?thesis by simp
  next
    case (Inr st1)
    with Cons.prems have "s = fst st \<or> s \<in> set (trace X acts st1)" by simp
    then show ?thesis
    proof
      assume "s = fst st"
      with Cons.prems(1) show ?thesis by simp
    next
      assume "s \<in> set (trace X acts st1)"
      from Cons.IH [OF idle_exec [OF Cons.prems(1) Inr] this] show ?thesis .
    qed
  qed
qed

lemma Wait_idle:
  assumes "\<forall>s \<in> set seen. idle s" and "2 \<le> length seen"
  shows "Wait (map observe seen) = WaitStalled"
proof -
  from assms(2) obtain a b rest where seen: "seen = a # b # rest"
    by (cases seen; cases "tl seen") auto
  with assms(1) have "observe a = (kEventTimeout, 0)" "observe b = (kEventTimeout, 0)"
    by (simp_all add: observe_def idle_def)
  with seen show ?thesis by (simp add: Wait_def)
qed

text \<open>
  C8, as stated, fails: with a budget of no frames the one comparison thread stops at its
  first step and the done event is not set; the main thread sees two timeouts with
  \<^verbatim>\<open>frames_processed_\<close> at 0 and \<^verbatim>\<open>Wait\<close> fails with the stall message instead of
  returning.
\<close>

theorem zero_budget_is_never_done:
  "map_sum id (comparison_thread_pool \<circ> fst)
     (run loopback [Thread 0] (VideoAnalyzer_init 0 1, wire0)) = Inr [Stopped]
   \<and> map_sum id (done_event \<circ> fst)
     (run loopback [Thread 0] (VideoAnalyzer_init 0 1, wire0)) = Inr False
   \<and> map observe (trace loopback [Thread 0] (VideoAnalyzer_init 0 1, wire0))
       = [(kEventTimeout, 0), (kEventTimeout, 0)]
   \<and> Wait (map observe (trace loopback [Thread 0] (VideoAnalyzer_init 0 1, wire0)))
       = WaitStalled"
  by (simp add: VideoAnalyzer_init_def num_comparison_threads_def kMinCoresLeft_def
      CompareFrames_step_def AllFramesRecorded_def set_pc_def observe_def Wait_def)

text \<open>
  C8, amended. With a budget of no frames, in every state of every run: a thread that
  enters \<^verbatim>\<open>CompareFrames\<close> stops at once, and no thread is anywhere else; nothing is
  popped, compared or counted, so the statistics of the comparisons and of the encoded
  frame sizes stay empty; the results are never printed and the done event is never set
  by the analyzer. So \<^verbatim>\<open>Wait\<close> does not return on its own: from its second timeout on
  it fails with the stall message.
\<close>

theorem zero_budget_stalls:
  assumes "s \<in> set (trace X acts (VideoAnalyzer_init 0 cores, w))"
  shows "(\<forall>i < length (comparison_thread_pool s). comparison_thread_pool s ! i = AtStart
            \<longrightarrow> CompareFrames_step X i s = Inr (set_pc i Stopped s))
       \<and> set (comparison_thread_pool s) \<subseteq> {AtStart, Stopped}
       \<and> \<not> done_event s \<and> results_printed s = 0
       \<and> frames_recorded s = 0 \<and> frames_processed s = 0 \<and> dropped_frames s = 0
       \<and> psnr s = [] \<and> ssim s = [] \<and> sender_time s = [] \<and> receiver_time s = []
       \<and> end_to_end s = [] \<and> rendered_delta s = [] \<and> encoded_frame_size s = []
       \<and> (\<forall>seen. set seen \<subseteq> set (trace X acts (VideoAnalyzer_init 0 cores, w))
             \<and> 2 \<le> length seen \<longrightarrow> Wait (map observe seen) = WaitStalled)"
proof -
  let ?st = "(VideoAnalyzer_init 0 cores :: 'a VideoAnalyzer, w)"
  have init: "idle (fst ?st)" by (simp add: idle_init)
  have all: "idle s'" if "s' \<in> set (trace X acts ?st)" for s'
    by (rule idle_trace [OF init that])
  have s: "idle s" by (rule all [OF assms])
  have a: "\<forall>i < length (comparison_thread_pool s). comparison_thread_pool s ! i = AtStart
            \<longrightarrow> CompareFrames_step X i s = Inr (set_pc i Stopped s)"
    using idle_step [OF s, of X] by auto
  have b: "\<forall>seen. set seen \<subseteq> set (trace X acts ?st) \<and> 2 \<le> length seen
             \<longrightarrow> Wait (map observe seen) = WaitStalled"
    using all by (auto intro!: Wait_idle)
  from s have "set (comparison_thread_pool s) \<subseteq> {AtStart, Stopped}
       \<and> \<not> done_event s \<and> results_printed s = 0
       \<and> frames_recorded s = 0 \<and> frames_processed s = 0 \<and> dropped_frames s = 0
       \<and> psnr s = [] \<and> ssim s = [] \<and> sender_time s = [] \<and> receiver_time s = []
       \<and> end_to_end s = [] \<and> rendered_delta s = [] \<and> encoded_frame_size s = []"
    by (simp add: idle_def)
  with a b show ?thesis by blast
qed

theorem zero_budget_stalls_witness:
  "\<not> done_event (last (trace loopback [Encoded 1200, Thread 0, Thread 0]
                          (VideoAnalyzer_init 0 1, wire0)))
   \<and> encoded_frame_size (last (trace loopback [Encoded 1200, Thread 0, Thread 0]
                          (VideoAnalyzer_init 0 1, wire0))) = []
   \<and> Wait (map observe (trace loopback [Encoded 1200, Thread 0, Thread 0]
                          (VideoAnalyzer_init 0 1, wire0))) = WaitStalled"
proof -
  let ?tr = "trace loopback [Encoded 1200, Thread 0, Thread 0]
               (VideoAnalyzer_init 0 1 :: int VideoAnalyzer, wire0)"
  have ne: "?tr \<noteq> []" by (rule trace_nonempty)
  then have mem: "last ?tr \<in> set ?tr" by (rule last_in_set)
  have len: "2 \<le> length ?tr"
    by (simp add: EncodedFrameCallback_def VideoAnalyzer_init_def num_comparison_threads_def
        kMinCoresLeft_def CompareFrames_step_def AllFramesRecorded_def set_pc_def)
  from zero_budget_stalls [OF mem]
  have quiet: "\<not> done_event (last ?tr)" "encoded_frame_size (last ?tr) = []"
    and stall: "\<forall>seen. set seen \<subseteq> set ?tr \<and> 2 \<le> length seen
                  \<longrightarrow> Wait (map observe seen) = WaitStalled"
    by blast+
  from stall len have "Wait (map observe ?tr) = WaitStalled" by blast
  with quiet show ?thesis by blast
qed

end
